theory Spec2Isabelle
  imports Main "HOL-Library.Sublist" "HOL-Library.Multiset"
begin

section \<open>Strings of the script\<close>

text \<open>
  A string is a list of code units. The model covers the code units U+0000 to U+00FF
  (one \<^typ>\<open>char\<close> each), compared by their number \<open>of_char c\<close>.
\<close>

definition code :: "char \<Rightarrow> nat" where
  "code c = of_char c"

text \<open>
  The regular expression class \<open>\s\<close> and \<open>String.prototype.trim\<close> use the same set:
  TAB, LF, VT, FF, CR, SPACE and NO-BREAK SPACE are its members below U+0100.
\<close>

definition isSpace :: "char \<Rightarrow> bool" where
  "isSpace c = (code c = 9 \<or> code c = 10 \<or> code c = 11 \<or> code c = 12 \<or> code c = 13
                \<or> code c = 32 \<or> code c = 160)"

text \<open>\<open>String.prototype.trim\<close>: white space is removed at both ends.\<close>

definition trim :: "string \<Rightarrow> string" where
  "trim s = rev (dropWhile isSpace (rev (dropWhile isSpace s)))"

text \<open>
  \<open>String.prototype.toLowerCase\<close>: below U+0100 the letters with a lower-case
  form are A to Z and U+00C0 to U+00DE without the multiplication sign U+00D7; the
  lower-case form is 32 code units higher.
\<close>

definition isUpper :: "char \<Rightarrow> bool" where
  "isUpper c = ((65 \<le> code c \<and> code c \<le> 90) \<or> (192 \<le> code c \<and> code c \<le> 222 \<and> code c \<noteq> 215))"

definition lowerChar :: "char \<Rightarrow> char" where
  "lowerChar c = (if isUpper c then char_of (code c + 32) else c)"

definition toLowerCase :: "string \<Rightarrow> string" where
  "toLowerCase s = map lowerChar s"

text \<open>The class \<open>[a-z0-9\s]\<close> of \<open>normalizeText\<close>.\<close>

definition isKept :: "char \<Rightarrow> bool" where
  "isKept c = ((97 \<le> code c \<and> code c \<le> 122) \<or> (48 \<le> code c \<and> code c \<le> 57) \<or> isSpace c)"

text \<open>
  \<open>String.prototype.includes\<close>: \<open>includes_str text query\<close> is \<open>text.includes(query)\<close>.
\<close>

fun startsWith :: "string \<Rightarrow> string \<Rightarrow> bool" where
  "startsWith text [] = True"
| "startsWith [] (q # qs) = False"
| "startsWith (c # cs) (q # qs) = (c = q \<and> startsWith cs qs)"

fun includes_str :: "string \<Rightarrow> string \<Rightarrow> bool" where
  "includes_str [] query = (query = [])"
| "includes_str (c # cs) query = (startsWith (c # cs) query \<or> includes_str cs query)"

text \<open>
  \<open>text.split(/\s+/)\<close>: the pieces between the maximal runs of white space, in order;
  a run at the start or the end of the text leaves an empty piece there, and the
  empty text has the one piece \<open>''''\<close>.
\<close>

fun splitSpaces_from :: "bool \<Rightarrow> string \<Rightarrow> string \<Rightarrow> string list" where
  "splitSpaces_from inRun current [] = [current]"
| "splitSpaces_from inRun current (c # cs) =
     (if isSpace c then
        (if inRun then splitSpaces_from True current cs
         else current # splitSpaces_from True [] cs)
      else splitSpaces_from False (current @ [c]) cs)"

definition splitSpaces :: "string \<Rightarrow> string list" where
  "splitSpaces text = splitSpaces_from False [] text"

section \<open>normalizeText\<close>

definition normalizeText :: "string \<Rightarrow> string" where
  "normalizeText v = trim (filter isKept (toLowerCase v))"

section \<open>getEditDistance\<close>

text \<open>
  The table is a list of rows. Every index the loops use is inside the table
  (rows \<open>0..length source\<close>, columns \<open>0..length comparison\<close>).
\<close>

type_synonym matrix = "nat list list"

definition setCell :: "matrix \<Rightarrow> nat \<Rightarrow> nat \<Rightarrow> nat \<Rightarrow> matrix" where
  "setCell m i j v = m[i := (m ! i)[j := v]]"

definition cell :: "matrix \<Rightarrow> nat \<Rightarrow> nat \<Rightarrow> nat" where
  "cell m i j = m ! i ! j"

text \<open>\<open>for (let i = 0; i <= source.length; i += 1) matrix[i][0] = i\<close>\<close>

function firstColumn :: "nat \<Rightarrow> nat \<Rightarrow> matrix \<Rightarrow> matrix" where
  "firstColumn i n m = (if i \<le> n then firstColumn (i + 1) n (setCell m i 0 i) else m)"
  by pat_completeness auto
termination
  by (relation "measure (\<lambda>(i, n, m). Suc n - i)") auto

declare firstColumn.simps [simp del]

text \<open>\<open>for (let j = 0; j <= comparison.length; j += 1) matrix[0][j] = j\<close>\<close>

function firstRow :: "nat \<Rightarrow> nat \<Rightarrow> matrix \<Rightarrow> matrix" where
  "firstRow j n m = (if j \<le> n then firstRow (j + 1) n (setCell m 0 j j) else m)"
  by pat_completeness auto
termination
  by (relation "measure (\<lambda>(j, n, m). Suc n - j)") auto

declare firstRow.simps [simp del]

text \<open>The inner loop over \<open>j\<close>, for a fixed row \<open>i\<close>.\<close>

function innerLoop :: "string \<Rightarrow> string \<Rightarrow> nat \<Rightarrow> nat \<Rightarrow> matrix \<Rightarrow> matrix" where
  "innerLoop source comparison i j m =
     (if j \<le> length comparison then
        (let cost = (if source ! (i - 1) = comparison ! (j - 1) then 0 else 1 :: nat)
         in innerLoop source comparison i (j + 1)
              (setCell m i j
                 (min (min (cell m (i - 1) j + 1) (cell m i (j - 1) + 1))
                      (cell m (i - 1) (j - 1) + cost))))
      else m)"
  by pat_completeness auto
termination
  by (relation "measure (\<lambda>(s, c, i, j, m). Suc (length c) - j)") auto

declare innerLoop.simps [simp del]

text \<open>The outer loop over \<open>i\<close>.\<close>

function outerLoop :: "string \<Rightarrow> string \<Rightarrow> nat \<Rightarrow> matrix \<Rightarrow> matrix" where
  "outerLoop source comparison i m =
     (if i \<le> length source then
        outerLoop source comparison (i + 1) (innerLoop source comparison i 1 m)
      else m)"
  by pat_completeness auto
termination
  by (relation "measure (\<lambda>(s, c, i, m). Suc (length s) - i)") auto

declare outerLoop.simps [simp del]

definition getEditDistance :: "string \<Rightarrow> string \<Rightarrow> nat" where
  "getEditDistance v target =
     (let source = normalizeText v;
          comparison = normalizeText target
      in if source = [] \<or> comparison = [] then max (length source) (length comparison)
         else
           (let m0 = replicate (length source + 1) (replicate (length comparison + 1) 0);
                m1 = firstColumn 0 (length source) m0;
                m2 = firstRow 0 (length comparison) m1;
                m3 = outerLoop source comparison 1 m2
            in cell m3 (length source) (length comparison)))"

section \<open>matchesWithTolerance\<close>

text \<open>
  \<open>Math.floor(normalizedQuery.length * 0.2)\<close> is the length divided by five, rounded
  down: the product of a length and the double nearest to 0.2 is never below the
  exact fifth and stays below the next integer.
\<close>

definition maxDistance :: "string \<Rightarrow> nat" where
  "maxDistance normalizedQuery = max 2 (length normalizedQuery div 5)"

definition matchesWithTolerance :: "string \<Rightarrow> string \<Rightarrow> bool" where
  "matchesWithTolerance query text =
     (if query = [] then True
      else
        (let normalizedQuery = normalizeText query;
             normalizedText = normalizeText text
         in if includes_str normalizedText normalizedQuery then True
            else
              (let ws = splitSpaces normalizedText
               in getEditDistance normalizedQuery normalizedText \<le> maxDistance normalizedQuery
                  \<or> list_ex (\<lambda>w. getEditDistance normalizedQuery w \<le> maxDistance normalizedQuery) ws)))"

section \<open>parseCSVLine and parseCSV\<close>

definition quoteChar :: char where
  "quoteChar = CHR 0x22"

definition commaChar :: char where
  "commaChar = CHR 0x2C"

text \<open>
  The loop of \<open>parseCSVLine\<close> over the rest of the line, with the fields pushed so
  far, the field being read and the \<open>inQuotes\<close> flag. \<open>nextChar\<close> is undefined at
  the last code unit, where the first test fails.
\<close>

fun parseCSVLine_loop :: "string list \<Rightarrow> string \<Rightarrow> bool \<Rightarrow> string \<Rightarrow> string list" where
  "parseCSVLine_loop vals current inQuotes [] = vals @ [trim current]"
| "parseCSVLine_loop vals current inQuotes (char # rest) =
     (if char = quoteChar \<and> (case rest of [] \<Rightarrow> False | nextChar # _ \<Rightarrow> nextChar = quoteChar)
      then parseCSVLine_loop vals (current @ [quoteChar]) inQuotes (tl rest)
      else if char = quoteChar then parseCSVLine_loop vals current (\<not> inQuotes) rest
      else if char = commaChar \<and> \<not> inQuotes
        then parseCSVLine_loop (vals @ [trim current]) [] inQuotes rest
      else parseCSVLine_loop vals (current @ [char]) inQuotes rest)"

definition parseCSVLine :: "string \<Rightarrow> string list" where
  "parseCSVLine line = parseCSVLine_loop [] [] False line"

text \<open>
  \<open>text.split(/\r?\n/)\<close>: the text is cut at every LF, and a CR right before the LF
  goes with it. The result always has at least one piece.
\<close>

fun splitLines_from :: "string \<Rightarrow> string \<Rightarrow> string list" where
  "splitLines_from current [] = [current]"
| "splitLines_from current (c # cs) =
     (if c = CHR 0x0D \<and> (case cs of [] \<Rightarrow> False | d # _ \<Rightarrow> d = CHR 0x0A)
      then current # splitLines_from [] (tl cs)
      else if c = CHR 0x0A then current # splitLines_from [] cs
      else splitLines_from (current @ [c]) cs)"

definition splitLines :: "string \<Rightarrow> string list" where
  "splitLines s = splitLines_from [] s"

text \<open>
  A field of a course object holds a string, or \<open>undefined\<close> (\<open>None\<close>) when the header
  line has no column of its name. \<open>duration\<close> is built by a template literal and is
  always a string.
\<close>

record course =
  courseName :: "string option"
  universityName :: "string option"
  universityType :: "string option"
  degreeType :: "string option"
  duration :: string
  language :: "string option"
  courseCode :: "string option"
  courseArea :: "string option"
  website :: "string option"

text \<open>How a template literal and \<open>localeCompare\<close> turn a field into a string.\<close>

definition valueToString :: "string option \<Rightarrow> string" where
  "valueToString v = (case v of None \<Rightarrow> ''undefined'' | Some s \<Rightarrow> s)"





section \<open>getFilteredCourses and renderCourses\<close>

text \<open>The \<open>value\<close> of the five controls of the page.\<close>

record controls =
  universitySearch :: string
  courseAreaSearch :: string
  courseSearch :: string
  degreeFilter :: string
  sortFilter :: string

text \<open>Calling a string method on \<open>undefined\<close> throws a TypeError.\<close>

datatype error = TypeError

text \<open>
  The callback of \<open>courses.filter\<close>. The four constants are computed in the order of
  the source, and all four before the conjunction. \<open>matchesWithTolerance\<close> returns
  before it reads the text when the query is empty.
\<close>

definition courseMatches :: "string \<Rightarrow> string \<Rightarrow> string \<Rightarrow> string \<Rightarrow> course \<Rightarrow> error + bool" where
  "courseMatches universityQuery courseAreaQuery courseQuery degreeQuery c =
     (case (if universityQuery \<noteq> []
            then (case universityName c of
                    None \<Rightarrow> Inl TypeError
                  | Some u \<Rightarrow> Inr (includes_str (toLowerCase u) universityQuery))
            else Inr True) of
        Inl e \<Rightarrow> Inl e
      | Inr matchesUniversity \<Rightarrow>
     (case (if courseAreaQuery \<noteq> []
            then (case courseArea c of
                    None \<Rightarrow> Inl TypeError
                  | Some a \<Rightarrow> Inr (includes_str (toLowerCase a) courseAreaQuery))
            else Inr True) of
        Inl e \<Rightarrow> Inl e
      | Inr matchesCourseArea \<Rightarrow>
     (case (case courseName c of
              None \<Rightarrow> (if courseQuery = [] then Inr True else Inl TypeError)
            | Some n \<Rightarrow> Inr (matchesWithTolerance courseQuery n)) of
        Inl e \<Rightarrow> Inl e
      | Inr matchesCourse \<Rightarrow>
          (let matchesDegree = (if degreeQuery \<noteq> [] then degreeType c = Some degreeQuery else True)
           in Inr (matchesUniversity \<and> matchesCourseArea \<and> matchesCourse \<and> matchesDegree)))))"

text \<open>\<open>Array.prototype.filter\<close> with a callback that may throw.\<close>

fun filterE :: "('a \<Rightarrow> error + bool) \<Rightarrow> 'a list \<Rightarrow> error + 'a list" where
  "filterE p [] = Inr []"
| "filterE p (x # xs) =
     (case p x of
        Inl e \<Rightarrow> Inl e
      | Inr keep \<Rightarrow>
          (case filterE p xs of
             Inl e \<Rightarrow> Inl e
           | Inr ys \<Rightarrow> Inr (if keep then x # ys else ys)))"

text \<open>
  \<open>(a, b) => a.field.localeCompare(b.field)\<close>. The collation of \<open>localeCompare\<close>
  belongs to the runtime and its locale; it is the parameter \<open>lc\<close>. The receiver must be
  a string; the argument is converted to one.
\<close>

definition compareField :: "(course \<Rightarrow> string option) \<Rightarrow> (string \<Rightarrow> string \<Rightarrow> int) \<Rightarrow> course \<Rightarrow> course \<Rightarrow> error + int" where
  "compareField field lc a b =
     (case field a of
        None \<Rightarrow> Inl TypeError
      | Some x \<Rightarrow> Inr (lc x (valueToString (field b))))"

text \<open>
  \<open>Array.prototype.sort\<close> is stable. Which pairs it compares is left to the engine;
  in the insertion sorts of the engines the receiver \<open>a\<close> of a comparison is the
  later element of the array and \<open>b\<close> an element before it. The model takes the
  elements from the first to the last and puts each one in front of the first element
  already placed that comes after it: \<open>insertE cmp x placed\<close> compares the later
  element \<open>x\<close> with the elements placed, and a comparison that throws ends the sort.
\<close>

fun insertE :: "('a \<Rightarrow> 'a \<Rightarrow> error + int) \<Rightarrow> 'a \<Rightarrow> 'a list \<Rightarrow> error + 'a list" where
  "insertE cmp x [] = Inr [x]"
| "insertE cmp x (y # ys) =
     (case cmp x y of
        Inl e \<Rightarrow> Inl e
      | Inr v \<Rightarrow>
          if v < 0 then Inr (x # y # ys)
          else (case insertE cmp x ys of Inl e \<Rightarrow> Inl e | Inr zs \<Rightarrow> Inr (y # zs)))"

fun sortE_from :: "('a \<Rightarrow> 'a \<Rightarrow> error + int) \<Rightarrow> 'a list \<Rightarrow> 'a list \<Rightarrow> error + 'a list" where
  "sortE_from cmp placed [] = Inr placed"
| "sortE_from cmp placed (x # xs) =
     (case insertE cmp x placed of Inl e \<Rightarrow> Inl e | Inr placed' \<Rightarrow> sortE_from cmp placed' xs)"

definition sortE :: "('a \<Rightarrow> 'a \<Rightarrow> error + int) \<Rightarrow> 'a list \<Rightarrow> error + 'a list" where
  "sortE cmp xs = sortE_from cmp [] xs"

definition getFilteredCourses :: "(string \<Rightarrow> string \<Rightarrow> int) \<Rightarrow> controls \<Rightarrow> course list \<Rightarrow> error + course list" where
  "getFilteredCourses lc ctl courses =
     (let universityQuery = toLowerCase (trim (universitySearch ctl));
          courseAreaQuery = toLowerCase (trim (courseAreaSearch ctl));
          courseQuery = toLowerCase (trim (courseSearch ctl));
          degreeQuery = degreeFilter ctl
      in case filterE (courseMatches universityQuery courseAreaQuery courseQuery degreeQuery) courses of
           Inl e \<Rightarrow> Inl e
         | Inr filtered \<Rightarrow>
             (let sortValue = sortFilter ctl
              in case (if sortValue = ''university''
                       then sortE (compareField universityName lc) filtered
                       else Inr filtered) of
                   Inl e \<Rightarrow> Inl e
                 | Inr filtered' \<Rightarrow>
                     if sortValue = ''degree''
                     then sortE (compareField degreeType lc) filtered'
                     else Inr filtered'))"

text \<open>A number in a template literal: its decimal digits.\<close>

function numberToString :: "nat \<Rightarrow> string" where
  "numberToString n =
     (if n < 10 then [char_of (48 + n)]
      else numberToString (n div 10) @ [char_of (48 + n mod 10)])"
  by pat_completeness auto
termination
  by (relation "measure id") auto

declare numberToString.simps [simp del]

text \<open>
  What \<open>renderCourses\<close> writes to the page: one card for each of \<open>visibleCourses\<close>, in
  this order (the markup of a card is not modelled), the text of the results count
  and the \<open>hidden\<close> flag of the empty-state element.
\<close>

record page =
  visibleCourses :: "course list"
  resultsCount :: string
  emptyStateHidden :: bool

definition renderCourses :: "(string \<Rightarrow> string \<Rightarrow> int) \<Rightarrow> controls \<Rightarrow> course list \<Rightarrow> error + page" where
  "renderCourses lc ctl courses =
     (let isInitialState =
            (trim (universitySearch ctl) = [] \<and> trim (courseAreaSearch ctl) = [] \<and>
             trim (courseSearch ctl) = [] \<and> degreeFilter ctl = [] \<and> sortFilter ctl = [])
      in case getFilteredCourses lc ctl courses of
           Inl e \<Rightarrow> Inl e
         | Inr filteredCourses \<Rightarrow>
             Inr \<lparr> visibleCourses =
                     (if isInitialState then take 10 filteredCourses else filteredCourses),
                   resultsCount = numberToString (length filteredCourses) @ '' course(s) found'',
                   emptyStateHidden = (length filteredCourses \<noteq> 0) \<rparr>)"

section \<open>Notions of the specification\<close>

text \<open>
  A single-character edit: one code unit is inserted, deleted, or replaced by another
  one, anywhere in the string.
\<close>

inductive edit1 :: "'a list \<Rightarrow> 'a list \<Rightarrow> bool" where
  insertion: "edit1 (xs @ ys) (xs @ c # ys)"
| deletion: "edit1 (xs @ c # ys) (xs @ ys)"
| substitution: "c \<noteq> d \<Longrightarrow> edit1 (xs @ c # ys) (xs @ d # ys)"

text \<open>\<open>edits n a b\<close>: \<open>n\<close> single-character edits transform \<open>a\<close> into \<open>b\<close>.\<close>

inductive edits :: "nat \<Rightarrow> 'a list \<Rightarrow> 'a list \<Rightarrow> bool" where
  edits_done: "edits 0 a a"
| edits_step: "edit1 a b \<Longrightarrow> edits n b c \<Longrightarrow> edits (Suc n) a c"

text \<open>The edit distance of the specification: the least number of edits.\<close>

definition editDistance :: "'a list \<Rightarrow> 'a list \<Rightarrow> nat" where
  "editDistance a b = (LEAST n. edits n a b)"

text \<open>
  A whitespace-delimited word of a text: a non-empty run of code units without white
  space, with the start of the text or white space before it and the end of the text
  or white space after it.
\<close>

definition wordOf :: "string \<Rightarrow> string \<Rightarrow> bool" where
  "wordOf w t =
     (w \<noteq> [] \<and> \<not> list_ex isSpace w \<and>
      (\<exists>pre suf. t = pre @ w @ suf \<and> (pre = [] \<or> isSpace (last pre))
                   \<and> (suf = [] \<or> isSpace (hd suf))))"

text \<open>
  A consistent comparator, as the language requires of the argument of \<open>sort\<close>:
  \<open>x\<close> comes before \<open>y\<close> exactly when \<open>y\<close> comes after \<open>x\<close>, and not coming
  after is transitive.
\<close>

definition consistent :: "(string \<Rightarrow> string \<Rightarrow> int) \<Rightarrow> bool" where
  "consistent lc =
     ((\<forall>x y. lc x y < 0 \<longleftrightarrow> 0 < lc y x) \<and>
      (\<forall>x y z. lc x y \<le> 0 \<and> lc y z \<le> 0 \<longrightarrow> lc x z \<le> 0))"

text \<open>A record of the data model: every field is plain text.\<close>

definition plainText :: "course \<Rightarrow> bool" where
  "plainText c =
     (courseName c \<noteq> None \<and> universityName c \<noteq> None \<and> universityType c \<noteq> None \<and>
      degreeType c \<noteq> None \<and> language c \<noteq> None \<and> courseCode c \<noteq> None \<and>
      courseArea c \<noteq> None \<and> website c \<noteq> None)"

text \<open>The records the filter callback accepts for the given controls.\<close>

definition selected :: "controls \<Rightarrow> course \<Rightarrow> bool" where
  "selected ctl c =
     (courseMatches (toLowerCase (trim (universitySearch ctl)))
        (toLowerCase (trim (courseAreaSearch ctl)))
        (toLowerCase (trim (courseSearch ctl))) (degreeFilter ctl) c = Inr True)"

text \<open>The lexicographic order of the code units, as a comparator.\<close>

fun compareCodeUnits :: "string \<Rightarrow> string \<Rightarrow> int" where
  "compareCodeUnits [] [] = 0"
| "compareCodeUnits [] (y # ys) = - 1"
| "compareCodeUnits (x # xs) [] = 1"
| "compareCodeUnits (x # xs) (y # ys) =
     (if code x < code y then - 1 else if code y < code x then 1 else compareCodeUnits xs ys)"

text \<open>
  \<open>localeCompare\<close> itself belongs to the runtime. On names of unaccented Latin letters
  its collation (the root collation of the Unicode Collation Algorithm, which the
  locales of the Latin script keep for these letters) compares the letters without
  regard to case first, the shorter of two names that agree so far first, and lower case
  before upper case where all letters are the same. \<open>collateLetters\<close> is this order, by
  its sort key: the letters in lower case, a separator below every letter, and one mark
  of case for each letter. It stands for \<open>localeCompare\<close> where a collation has to be
  evaluated; the theorems take the collation as the parameter \<open>lc\<close>.
\<close>

definition sortKey :: "string \<Rightarrow> string" where
  "sortKey s = map lowerChar s @ [CHR 0x01] @ map (\<lambda>c. if isUpper c then CHR 0x03 else CHR 0x02) s"

definition collateLetters :: "string \<Rightarrow> string \<Rightarrow> int" where
  "collateLetters x y = compareCodeUnits (sortKey x) (sortKey y)"

text \<open>
  The comma-separated form of the dataset. A field is written plain, or in quotes with
  every quote character of its content doubled; the fields of a line are separated by
  commas. The text of a field is its content without the white space at its ends.
\<close>

datatype csvField = Plain string | Quoted string

definition escapeQ :: "string \<Rightarrow> string" where
  "escapeQ s = concat (map (\<lambda>c. if c = quoteChar then [quoteChar, quoteChar] else [c]) s)"

fun encodeField :: "csvField \<Rightarrow> string" where
  "encodeField (Plain s) = s"
| "encodeField (Quoted s) = quoteChar # escapeQ s @ [quoteChar]"

fun fieldText :: "csvField \<Rightarrow> string" where
  "fieldText (Plain s) = trim s"
| "fieldText (Quoted s) = trim s"

fun joinWith :: "string \<Rightarrow> string list \<Rightarrow> string" where
  "joinWith sep [] = []"
| "joinWith sep [p] = p"
| "joinWith sep (p # q # ps) = p @ sep @ joinWith sep (q # ps)"

definition encodeLine :: "csvField list \<Rightarrow> string" where
  "encodeLine fs = joinWith [commaChar] (map encodeField fs)"

text \<open>
  A plain field has no quote and no comma. The content of a quoted field has a code unit
  that is not a quote. A line has at least one field.
\<close>

fun wellFormedField :: "csvField \<Rightarrow> bool" where
  "wellFormedField (Plain s) = (\<not> list_ex (\<lambda>c. c = quoteChar \<or> c = commaChar) s)"
| "wellFormedField (Quoted s) = list_ex (\<lambda>c. c \<noteq> quoteChar) s"

definition wellFormedLine :: "csvField list \<Rightarrow> bool" where
  "wellFormedLine fs = (fs \<noteq> [] \<and> list_all wellFormedField fs)"




section \<open>Notions of the proofs\<close>

text \<open>The edit distance by recursion on the two strings.\<close>

fun lev :: "'a list \<Rightarrow> 'a list \<Rightarrow> nat" where
  "lev [] ys = length ys"
| "lev (x # xs) [] = Suc (length xs)"
| "lev (x # xs) (y # ys) =
     min (min (lev xs (y # ys) + 1) (lev (x # xs) ys + 1)) (lev xs ys + (if x = y then 0 else 1))"

text \<open>A table of \<open>r\<close> rows of \<open>c\<close> cells.\<close>

definition dims :: "nat \<Rightarrow> nat \<Rightarrow> matrix \<Rightarrow> bool" where
  "dims r c m = (length m = r \<and> (\<forall>i < r. length (m ! i) = c))"

text \<open>The distance between the first \<open>i\<close> code units of \<open>s\<close> and the first \<open>j\<close> of \<open>t\<close>.\<close>

definition dist :: "'a list \<Rightarrow> 'a list \<Rightarrow> nat \<Rightarrow> nat \<Rightarrow> nat" where
  "dist s t i j = lev (rev (take i s)) (rev (take j t))"

text \<open>The cells that hold their distance when the loops reach row \<open>i\<close>, column \<open>j\<close>.\<close>

definition filled :: "string \<Rightarrow> string \<Rightarrow> nat \<Rightarrow> nat \<Rightarrow> matrix \<Rightarrow> bool" where
  "filled s t i j m =
     (\<forall>i' j'. i' \<le> length s \<longrightarrow> j' \<le> length t \<longrightarrow>
        (i' = 0 \<or> j' = 0 \<or> i' < i \<or> (i' = i \<and> j' < j)) \<longrightarrow> cell m i' j' = dist s t i' j')"

section \<open>Sample data\<close>




definition sampleCourses :: "course list" where
  "sampleCourses =
     [\<lparr> courseName = Some ''Algebra'', universityName = Some ''Pisa'',
        universityType = Some ''Public'', degreeType = Some ''Bachelor'',
        duration = ''3 years'', language = Some ''Italian'', courseCode = Some ''A1'',
        courseArea = Some ''Maths'', website = Some [] \<rparr>,
      \<lparr> courseName = Some ''Biology'', universityName = Some ''Bologna'',
        universityType = Some ''Public'', degreeType = Some ''Master'',
        duration = ''2 years'', language = Some ''English'', courseCode = Some ''B2'',
        courseArea = Some ''Life Sciences'', website = Some [] \<rparr>,
      \<lparr> courseName = Some ''Chemistry'', universityName = Some ''Milano'',
        universityType = Some ''Private'', degreeType = Some ''Bachelor'',
        duration = ''3 years'', language = Some ''Italian'', courseCode = Some ''C3'',
        courseArea = Some ''Chemistry'', website = Some [] \<rparr>]"

definition manyCourses :: "course list" where
  "manyCourses = map (\<lambda>n. (hd sampleCourses) \<lparr> courseCode := Some (numberToString n) \<rparr>) [0..<12]"

definition noControls :: controls where
  "noControls = \<lparr> universitySearch = [], courseAreaSearch = '' '', courseSearch = [],
                  degreeFilter = [], sortFilter = [] \<rparr>"

definition sortByUniversity :: controls where
  "sortByUniversity = \<lparr> universitySearch = [], courseAreaSearch = [], courseSearch = [],
                        degreeFilter = [], sortFilter = ''university'' \<rparr>"

definition firenze :: course where
  "firenze = (sampleCourses ! 0) \<lparr> universityName := Some ''Firenze'' \<rparr>"

definition eCampus :: course where
  "eCampus = (sampleCourses ! 1) \<lparr> universityName := Some ''eCampus'' \<rparr>"

definition sampleUniversities :: "course list" where
  "sampleUniversities = [firenze, eCampus, sampleCourses ! 0, sampleCourses ! 1]"




definition sampleLineFields :: "csvField list" where
  "sampleLineFields = [Plain ''B12'', Quoted ''Bio, Tech \"Plus\"'', Plain ''Torino'']"

section \<open>The recursive distance is the least number of edits\<close>

lemma lev_Nil2 [simp]: "lev xs [] = length xs"
  by (cases xs) simp_all

lemma lev_same [simp]: "lev xs xs = 0"
  by (induction xs) simp_all

lemma lev_sym: "lev xs ys = lev ys xs"
  by (induction xs ys rule: lev.induct) (simp_all add: min.commute min.left_commute)

lemma lev_drop_head: "lev ys t \<le> lev (c # ys) t + 1"
proof (induction t)
  case Nil
  show ?case by simp
next
  case (Cons d t)
  have a: "lev ys (d # t) \<le> lev ys t + 1"
    by (cases ys) simp_all
  from Cons a show ?case by simp
qed

lemma lev_add_head: "lev (c # ys) t \<le> lev ys t + 1"
  by (cases t) simp_all

lemma lev_change_head: "lev (c # ys) t \<le> lev (d # ys) t + 1"
proof (induction t)
  case Nil
  show ?case by simp
next
  case (Cons e t)
  then show ?case by (cases "c = e"; cases "d = e") (simp_all add: min_def)
qed

lemma lev_cons_mono:
  assumes "\<And>t. lev a t \<le> lev b t + 1"
  shows "lev (x # a) t \<le> lev (x # b) t + 1"
proof (induction t)
  case Nil
  from assms [of "[]"] show ?case by simp
next
  case (Cons e t)
  from Cons assms [of "e # t"] assms [of t] show ?case by simp
qed

lemma lev_prefix_mono:
  assumes "\<And>t. lev a t \<le> lev b t + 1"
  shows "lev (xs @ a) t \<le> lev (xs @ b) t + 1"
proof (induction xs arbitrary: t)
  case Nil
  show ?case using assms by simp
next
  case (Cons x xs)
  show ?case using lev_cons_mono [of "xs @ a" "xs @ b" x t] Cons by simp
qed

lemma edit1_lev: "edit1 a b \<Longrightarrow> lev a t \<le> lev b t + 1"
proof (induction rule: edit1.induct)
  case (insertion xs ys c)
  show ?case by (rule lev_prefix_mono) (rule lev_drop_head)
next
  case (deletion xs c ys)
  show ?case by (rule lev_prefix_mono) (rule lev_add_head)
next
  case (substitution c d xs ys)
  show ?case by (rule lev_prefix_mono) (rule lev_change_head)
qed

lemma edits_lev_le: "edits n a b \<Longrightarrow> lev a b \<le> n"
proof (induction rule: edits.induct)
  case (edits_done a)
  show ?case by simp
next
  case (edits_step a b n c)
  from edit1_lev [OF edits_step.hyps(1), of c] edits_step.IH show ?case by simp
qed

lemma edit1_Cons: "edit1 a b \<Longrightarrow> edit1 (x # a) (x # b)"
proof (induction rule: edit1.induct)
  case (insertion xs ys c)
  show ?case using edit1.insertion [of "x # xs" ys c] by simp
next
  case (deletion xs c ys)
  show ?case using edit1.deletion [of "x # xs" c ys] by simp
next
  case (substitution c d xs ys)
  show ?case using edit1.substitution [of c d "x # xs" ys] substitution by simp
qed

lemma edits_Cons: "edits n a b \<Longrightarrow> edits n (x # a) (x # b)"
  by (induction rule: edits.induct) (auto intro: edits.intros edit1_Cons)

lemma edits_insert_all: "edits (length ys) [] ys"
proof (induction ys)
  case Nil
  show ?case by (simp add: edits_done)
next
  case (Cons y ys)
  have "edit1 ([] @ []) ([] @ y # [])" by (rule edit1.insertion)
  then have "edit1 [] [y]" by simp
  moreover have "edits (length ys) [y] (y # ys)"
    using edits_Cons [OF Cons, of y] by simp
  ultimately show ?case using edits_step by fastforce
qed

lemma edits_delete_all: "edits (length xs) xs []"
proof (induction xs)
  case Nil
  show ?case by (simp add: edits_done)
next
  case (Cons x xs)
  have "edit1 ([] @ x # xs) ([] @ xs)" by (rule edit1.deletion)
  then have "edit1 (x # xs) xs" by simp
  then show ?case using Cons edits_step by fastforce
qed

lemma edits_lev: "edits (lev xs ys) xs ys"
proof (induction xs ys rule: lev.induct)
  case (1 ys)
  show ?case using edits_insert_all by simp
next
  case (2 x xs)
  show ?case using edits_delete_all [of "x # xs"] by simp
next
  case (3 x xs y ys)
  let ?a = "lev xs (y # ys) + 1" and ?b = "lev (x # xs) ys + 1"
  let ?c = "lev xs ys + (if x = y then 0 else 1)"
  have del: "edits ?a (x # xs) (y # ys)"
  proof -
    have "edit1 ([] @ x # xs) ([] @ xs)" by (rule edit1.deletion)
    then have "edit1 (x # xs) xs" by simp
    then show ?thesis using "3.IH"(1) edits_step by fastforce
  qed
  have ins: "edits ?b (x # xs) (y # ys)"
  proof -
    have "edit1 ([] @ x # xs) ([] @ y # x # xs)" by (rule edit1.insertion)
    then have "edit1 (x # xs) (y # x # xs)" by simp
    moreover have "edits (lev (x # xs) ys) (y # x # xs) (y # ys)"
      using edits_Cons [OF "3.IH"(2)] .
    ultimately show ?thesis using edits_step by fastforce
  qed
  have sub: "edits ?c (x # xs) (y # ys)"
  proof (cases "x = y")
    case True
    then show ?thesis using edits_Cons [OF "3.IH"(3), of y] by simp
  next
    case False
    then have "edit1 ([] @ x # xs) ([] @ y # xs)" by (intro edit1.substitution)
    then have "edit1 (x # xs) (y # xs)" by simp
    moreover have "edits (lev xs ys) (y # xs) (y # ys)"
      using edits_Cons [OF "3.IH"(3)] .
    ultimately show ?thesis using False edits_step by fastforce
  qed
  have "lev (x # xs) (y # ys) = ?a \<or> lev (x # xs) (y # ys) = ?b \<or> lev (x # xs) (y # ys) = ?c"
    by (simp add: min_def)
  with del ins sub show ?case by metis
qed

lemma editDistance_lev: "editDistance xs ys = lev xs ys"
  unfolding editDistance_def
  by (rule Least_equality) (auto intro: edits_lev edits_lev_le)

section \<open>The table of getEditDistance\<close>

lemma dims_setCell: "dims r c m \<Longrightarrow> dims r c (setCell m i j v)"
proof -
  assume d: "dims r c m"
  have "length ((setCell m i j v) ! k) = c" if "k < r" for k
  proof (cases "k = i")
    case True
    then show ?thesis using d that by (simp add: dims_def setCell_def)
  next
    case False
    then show ?thesis using d that by (simp add: dims_def setCell_def)
  qed
  then show ?thesis using d by (simp add: dims_def setCell_def)
qed

lemma cell_setCell:
  "dims r c m \<Longrightarrow> i < r \<Longrightarrow> j < c \<Longrightarrow>
   cell (setCell m i j v) i' j' = (if i' = i \<and> j' = j then v else cell m i' j')"
  by (auto simp: dims_def setCell_def cell_def nth_list_update)

lemma dims_replicate: "dims r c (replicate r (replicate c 0))"
  by (simp add: dims_def)

lemma firstColumn_spec:
  "dims r c m \<Longrightarrow> n < r \<Longrightarrow> 0 < c \<Longrightarrow>
   dims r c (firstColumn i n m) \<and>
   (\<forall>i' j'. cell (firstColumn i n m) i' j' = (if j' = 0 \<and> i \<le> i' \<and> i' \<le> n then i' else cell m i' j'))"
proof (induction i n m rule: firstColumn.induct)
  case (1 i n m)
  show ?case
  proof (cases "i \<le> n")
    case True
    have d: "dims r c (setCell m i 0 i)" using "1.prems" by (simp add: dims_setCell)
    have ih: "dims r c (firstColumn (i + 1) n (setCell m i 0 i)) \<and>
      (\<forall>i' j'. cell (firstColumn (i + 1) n (setCell m i 0 i)) i' j' =
         (if j' = 0 \<and> i + 1 \<le> i' \<and> i' \<le> n then i' else cell (setCell m i 0 i) i' j'))"
      using "1.IH" [OF True d] "1.prems" by simp
    have c: "\<And>i' j'. cell (setCell m i 0 i) i' j' = (if i' = i \<and> j' = 0 then i else cell m i' j')"
      using cell_setCell [of r c m i 0] "1.prems" True by simp
    have unf: "firstColumn i n m = firstColumn (i + 1) n (setCell m i 0 i)"
      using True by (subst firstColumn.simps) simp
    show ?thesis unfolding unf using ih c True by auto
  next
    case False
    then have "firstColumn i n m = m" by (subst firstColumn.simps) simp
    with False "1.prems" show ?thesis by auto
  qed
qed

lemma firstRow_spec:
  "dims r c m \<Longrightarrow> n < c \<Longrightarrow> 0 < r \<Longrightarrow>
   dims r c (firstRow j n m) \<and>
   (\<forall>i' j'. cell (firstRow j n m) i' j' = (if i' = 0 \<and> j \<le> j' \<and> j' \<le> n then j' else cell m i' j'))"
proof (induction j n m rule: firstRow.induct)
  case (1 j n m)
  show ?case
  proof (cases "j \<le> n")
    case True
    have d: "dims r c (setCell m 0 j j)" using "1.prems" by (simp add: dims_setCell)
    have ih: "dims r c (firstRow (j + 1) n (setCell m 0 j j)) \<and>
      (\<forall>i' j'. cell (firstRow (j + 1) n (setCell m 0 j j)) i' j' =
         (if i' = 0 \<and> j + 1 \<le> j' \<and> j' \<le> n then j' else cell (setCell m 0 j j) i' j'))"
      using "1.IH" [OF True d] "1.prems" by simp
    have c: "\<And>i' j'. cell (setCell m 0 j j) i' j' = (if i' = 0 \<and> j' = j then j else cell m i' j')"
      using cell_setCell [of r c m 0 j] "1.prems" True by simp
    have unf: "firstRow j n m = firstRow (j + 1) n (setCell m 0 j j)"
      using True by (subst firstRow.simps) simp
    show ?thesis unfolding unf using ih c True by auto
  next
    case False
    then have "firstRow j n m = m" by (subst firstRow.simps) simp
    with False "1.prems" show ?thesis by auto
  qed
qed

lemma dist_0_left: "j \<le> length t \<Longrightarrow> dist s t 0 j = j"
  by (simp add: dist_def)

lemma dist_0_right: "i \<le> length s \<Longrightarrow> dist s t i 0 = i"
  by (simp add: dist_def)

lemma dist_step:
  assumes "i < length s" "j < length t"
  shows "dist s t (Suc i) (Suc j) =
    min (min (dist s t i (Suc j) + 1) (dist s t (Suc i) j + 1))
        (dist s t i j + (if s ! i = t ! j then 0 else 1))"
  using assms by (simp add: dist_def take_Suc_conv_app_nth)

lemma dist_full: "dist s t (length s) (length t) = lev (rev s) (rev t)"
  by (simp add: dist_def)

lemma innerLoop_spec:
  "dims (length s + 1) (length t + 1) m \<Longrightarrow> 1 \<le> i \<Longrightarrow> i \<le> length s \<Longrightarrow> 1 \<le> j \<Longrightarrow>
   filled s t i j m \<Longrightarrow>
   dims (length s + 1) (length t + 1) (innerLoop s t i j m) \<and>
   filled s t (i + 1) 1 (innerLoop s t i j m)"
proof (induction s t i j m rule: innerLoop.induct)
  case (1 s t i j m)
  define v where "v = min (min (cell m (i - 1) j + 1) (cell m i (j - 1) + 1))
              (cell m (i - 1) (j - 1) + (if s ! (i - 1) = t ! (j - 1) then 0 else 1))"
  define m' where "m' = setCell m i j v"
  show ?case
  proof (cases "j \<le> length t")
    case True
    have unf: "innerLoop s t i j m = innerLoop s t i (j + 1) m'"
      using True by (subst innerLoop.simps) (simp add: Let_def v_def m'_def)
    have d: "dims (length s + 1) (length t + 1) m'"
      using "1.prems" by (simp add: dims_setCell m'_def)
    have c: "cell m' i' j' = (if i' = i \<and> j' = j then v else cell m i' j')" for i' j'
      unfolding m'_def
      using cell_setCell [of "length s + 1" "length t + 1" m i j v i' j'] "1.prems" True by simp
    obtain i0 j0 where ij: "i = Suc i0" "j = Suc j0"
      using "1.prems" by (cases i; cases j) auto
    have f: "filled s t i j m" by fact
    have v1: "cell m (i - 1) j = dist s t i0 (Suc j0)"
      using f True "1.prems" ij unfolding filled_def by auto
    have v2: "cell m i (j - 1) = dist s t (Suc i0) j0"
      using f True "1.prems" ij unfolding filled_def by auto
    have v3: "cell m (i - 1) (j - 1) = dist s t i0 j0"
      using f True "1.prems" ij unfolding filled_def by auto
    have v: "v = dist s t i j"
      unfolding v_def v1 v2 v3
      using ij True "1.prems" dist_step [of i0 s j0 t] by simp
    have f': "filled s t i (j + 1) m'"
      unfolding filled_def
    proof (intro allI impI)
      fix i' j'
      assume a: "i' \<le> length s" "j' \<le> length t"
        "i' = 0 \<or> j' = 0 \<or> i' < i \<or> (i' = i \<and> j' < j + 1)"
      show "cell m' i' j' = dist s t i' j'"
      proof (cases "i' = i \<and> j' = j")
        case True
        then show ?thesis using c v by simp
      next
        case False
        then have "i' = 0 \<or> j' = 0 \<or> i' < i \<or> (i' = i \<and> j' < j)" using a by auto
        then have "cell m i' j' = dist s t i' j'" using f a unfolding filled_def by blast
        then show ?thesis using c [of i' j'] False by auto
      qed
    qed
    have ih: "dims (length s + 1) (length t + 1) (innerLoop s t i (j + 1) m') \<and>
        filled s t (i + 1) 1 (innerLoop s t i (j + 1) m')"
      unfolding m'_def v_def
      using "1.IH" [OF True refl] d f' "1.prems" unfolding m'_def v_def by simp
    show ?thesis unfolding unf using ih .
  next
    case False
    then have unf: "innerLoop s t i j m = m" by (subst innerLoop.simps) simp
    have "filled s t (i + 1) 1 m"
      unfolding filled_def
    proof (intro allI impI)
      fix i' j'
      assume a: "i' \<le> length s" "j' \<le> length t"
        "i' = 0 \<or> j' = 0 \<or> i' < i + 1 \<or> (i' = i + 1 \<and> j' < 1)"
      have "i' = 0 \<or> j' = 0 \<or> i' < i \<or> (i' = i \<and> j' < j)"
        using a False by auto
      then show "cell m i' j' = dist s t i' j'"
        using "1.prems"(5) a unfolding filled_def by blast
    qed
    then show ?thesis using unf "1.prems" by simp
  qed
qed

lemma outerLoop_spec:
  "dims (length s + 1) (length t + 1) m \<Longrightarrow> 1 \<le> i \<Longrightarrow> filled s t i 1 m \<Longrightarrow>
   filled s t (length s + 1) 1 (outerLoop s t i m)"
proof (induction s t i m rule: outerLoop.induct)
  case (1 s t i m)
  show ?case
  proof (cases "i \<le> length s")
    case True
    have unf: "outerLoop s t i m = outerLoop s t (i + 1) (innerLoop s t i 1 m)"
      using True by (subst outerLoop.simps) simp
    have inner: "dims (length s + 1) (length t + 1) (innerLoop s t i 1 m) \<and>
        filled s t (i + 1) 1 (innerLoop s t i 1 m)"
      using innerLoop_spec [of s t m i 1] "1.prems" True by simp
    show ?thesis unfolding unf using "1.IH" [OF True] inner by simp
  next
    case False
    then have unf: "outerLoop s t i m = m" by (subst outerLoop.simps) simp
    have "filled s t (length s + 1) 1 m"
      unfolding filled_def
    proof (intro allI impI)
      fix i' j'
      assume a: "i' \<le> length s" "j' \<le> length t"
      have "i' < i" using a False by auto
      then show "cell m i' j' = dist s t i' j'"
        using "1.prems"(3) a unfolding filled_def by blast
    qed
    then show ?thesis using unf by simp
  qed
qed

lemma table_correct:
  "cell (outerLoop s t 1 (firstRow 0 (length t) (firstColumn 0 (length s)
      (replicate (length s + 1) (replicate (length t + 1) 0))))) (length s) (length t)
   = lev (rev s) (rev t)"
proof -
  let ?m0 = "replicate (length s + 1) (replicate (length t + 1) (0::nat))"
  let ?m1 = "firstColumn 0 (length s) ?m0"
  let ?m2 = "firstRow 0 (length t) ?m1"
  have d0: "dims (length s + 1) (length t + 1) ?m0" by (rule dims_replicate)
  have s1: "dims (length s + 1) (length t + 1) ?m1 \<and>
    (\<forall>i' j'. cell ?m1 i' j' = (if j' = 0 \<and> 0 \<le> i' \<and> i' \<le> length s then i' else cell ?m0 i' j'))"
    using firstColumn_spec [OF d0, of "length s" 0] by simp
  have s2: "dims (length s + 1) (length t + 1) ?m2 \<and>
    (\<forall>i' j'. cell ?m2 i' j' = (if i' = 0 \<and> 0 \<le> j' \<and> j' \<le> length t then j' else cell ?m1 i' j'))"
    using firstRow_spec [of "length s + 1" "length t + 1" ?m1 "length t" 0] s1 by simp
  have f: "filled s t 1 1 ?m2"
    unfolding filled_def using s1 s2 by (auto simp: dist_0_left dist_0_right)
  have "filled s t (length s + 1) 1 (outerLoop s t 1 ?m2)"
    using outerLoop_spec [of s t ?m2 1] s2 f by simp
  then have "cell (outerLoop s t 1 ?m2) (length s) (length t) = dist s t (length s) (length t)"
    unfolding filled_def by simp
  then show ?thesis by (simp add: dist_full)
qed

section \<open>getEditDistance is the recursive distance\<close>

lemma edit1_rev: "edit1 a b \<Longrightarrow> edit1 (rev a) (rev b)"
proof (induction rule: edit1.induct)
  case (insertion xs ys c)
  show ?case using edit1.insertion [of "rev ys" "rev xs" c] by simp
next
  case (deletion xs c ys)
  show ?case using edit1.deletion [of "rev ys" c "rev xs"] by simp
next
  case (substitution c d xs ys)
  show ?case using edit1.substitution [of c d "rev ys" "rev xs"] substitution by simp
qed

lemma edits_rev: "edits n a b \<Longrightarrow> edits n (rev a) (rev b)"
  by (induction rule: edits.induct) (auto intro: edits.intros edit1_rev)

lemma lev_rev_le: "lev (rev a) (rev b) \<le> lev a b"
  by (rule edits_lev_le) (rule edits_rev, rule edits_lev)

lemma lev_rev: "lev (rev a) (rev b) = lev a b"
  using lev_rev_le [of a b] lev_rev_le [of "rev a" "rev b"] by simp

lemma getEditDistance_lev:
  "getEditDistance a b = lev (normalizeText a) (normalizeText b)"
proof (cases "normalizeText a = [] \<or> normalizeText b = []")
  case True
  then show ?thesis by (auto simp: getEditDistance_def Let_def)
next
  case False
  then show ?thesis
    unfolding getEditDistance_def Let_def table_correct lev_rev by simp
qed

section \<open>normalizeText\<close>

lemma isKept_lowerChar: "isKept c \<Longrightarrow> lowerChar c = c"
  by (auto simp: isKept_def isUpper_def isSpace_def lowerChar_def)

lemma trim_subset: "set (trim s) \<subseteq> set s"
  by (auto simp: trim_def dest!: set_dropWhileD)

lemma trim_ends:
  assumes "trim s \<noteq> []"
  shows "\<not> isSpace (hd (trim s))" and "\<not> isSpace (last (trim s))"
proof -
  let ?a = "dropWhile isSpace s"
  let ?b = "dropWhile isSpace (rev ?a)"
  have b: "?b \<noteq> []" using assms by (simp add: trim_def)
  then have a: "?a \<noteq> []" by (cases "dropWhile isSpace s") simp_all
  have "last (trim s) = hd ?b" using b by (simp add: trim_def last_rev)
  then show "\<not> isSpace (last (trim s))" using hd_dropWhile [OF b] by simp
  have "hd (trim s) = last ?b" using b by (simp add: trim_def hd_rev)
  also have "\<dots> = last (rev ?a)"
    using b by (metis append_Nil2 last_appendR takeWhile_dropWhile_id)
  also have "\<dots> = hd ?a" using a by (simp add: last_rev)
  finally show "\<not> isSpace (hd (trim s))" using hd_dropWhile [OF a] by simp
qed

lemma trim_id:
  assumes "s = [] \<or> (\<not> isSpace (hd s) \<and> \<not> isSpace (last s))"
  shows "trim s = s"
proof (cases "s = []")
  case True
  then show ?thesis by (simp add: trim_def)
next
  case False
  with assms have h: "\<not> isSpace (hd s)" and l: "\<not> isSpace (last s)" by auto
  have 1: "dropWhile isSpace s = s" using False h by (cases s) auto
  have "hd (rev s) = last s" using False by (simp add: hd_rev)
  then have 2: "dropWhile isSpace (rev s) = rev s"
    using l by (simp add: dropWhile_eq_self_iff)
  show ?thesis by (simp add: trim_def 1 2)
qed

lemma normalizeText_kept: "c \<in> set (normalizeText s) \<Longrightarrow> isKept c"
  using trim_subset [of "filter isKept (toLowerCase s)"] by (auto simp: normalizeText_def)

lemma normalizeText_fixed:
  assumes "\<forall>c \<in> set s. isKept c" "s = [] \<or> (\<not> isSpace (hd s) \<and> \<not> isSpace (last s))"
  shows "normalizeText s = s"
proof -
  have "toLowerCase s = s"
    unfolding toLowerCase_def using assms(1) by (simp add: isKept_lowerChar map_idI)
  moreover have "filter isKept s = s" using assms(1) by simp
  ultimately show ?thesis using trim_id [OF assms(2)] by (simp add: normalizeText_def)
qed

lemma normalizeText_ends:
  "normalizeText s = [] \<or> (\<not> isSpace (hd (normalizeText s)) \<and> \<not> isSpace (last (normalizeText s)))"
  unfolding normalizeText_def using trim_ends by blast

lemma normalizeText_idem: "normalizeText (normalizeText s) = normalizeText s"
  by (rule normalizeText_fixed) (use normalizeText_kept normalizeText_ends in auto)

section \<open>includes and split\<close>

lemma startsWith_prefix: "startsWith t q \<longleftrightarrow> prefix q t"
  by (induction t q rule: startsWith.induct) auto

lemma includes_str_sublist: "includes_str t q \<longleftrightarrow> sublist q t"
proof (induction t)
  case Nil
  show ?case by simp
next
  case (Cons c cs)
  show ?case
    using Cons by (cases q) (auto simp: startsWith_prefix sublist_Cons_right)
qed

lemma wordOfI:
  "w \<noteq> [] \<Longrightarrow> \<not> list_ex isSpace w \<Longrightarrow> pre = [] \<or> isSpace (last pre) \<Longrightarrow>
   suf = [] \<or> isSpace (hd suf) \<Longrightarrow> wordOf w (pre @ w @ suf)"
  unfolding wordOf_def by blast

lemma splitSpaces_from_sound:
  assumes "w \<in> set (splitSpaces_from r cur cs)" "w \<noteq> []"
    "\<not> list_ex isSpace cur" "r \<longrightarrow> cur = []" "pre = [] \<or> isSpace (last pre)"
  shows "wordOf w (pre @ cur @ cs)"
  using assms
proof (induction cs arbitrary: r cur pre)
  case Nil
  then have "w = cur" by simp
  then show ?case using Nil wordOfI [of cur pre "[]"] by simp
next
  case (Cons c cs)
  show ?case
  proof (cases "isSpace c")
    case sp: True
    show ?thesis
    proof (cases r)
      case True
      then have cur: "cur = []" using Cons.prems by simp
      have "w \<in> set (splitSpaces_from True [] cs)" using Cons.prems sp True cur by simp
      then have "wordOf w ((pre @ [c]) @ [] @ cs)"
        using Cons.IH [of True "[]" "pre @ [c]"] Cons.prems(2) sp by simp
      then show ?thesis using cur by simp
    next
      case False
      then have "w = cur \<or> w \<in> set (splitSpaces_from True [] cs)"
        using Cons.prems sp by auto
      then show ?thesis
      proof
        assume "w = cur"
        then show ?thesis using Cons.prems sp wordOfI [of cur pre "c # cs"] by simp
      next
        assume "w \<in> set (splitSpaces_from True [] cs)"
        then have "wordOf w ((pre @ cur @ [c]) @ [] @ cs)"
          using Cons.IH [of True "[]" "pre @ cur @ [c]"] Cons.prems(2) sp by simp
        then show ?thesis by simp
      qed
    qed
  next
    case False
    then have "w \<in> set (splitSpaces_from False (cur @ [c]) cs)" using Cons.prems by simp
    then have "wordOf w (pre @ (cur @ [c]) @ cs)"
      using Cons.IH [of False "cur @ [c]" pre] Cons.prems False by simp
    then show ?thesis by simp
  qed
qed

lemma splitSpaces_from_word:
  "\<not> list_ex isSpace w \<Longrightarrow> w \<noteq> [] \<Longrightarrow>
   splitSpaces_from r cur (w @ rest) = splitSpaces_from False (cur @ w) rest"
proof (induction w arbitrary: r cur)
  case Nil
  then show ?case by simp
next
  case (Cons c w)
  show ?case
  proof (cases "w = []")
    case True
    then show ?thesis using Cons.prems by simp
  next
    case False
    then show ?thesis using Cons.IH [of False "cur @ [c]"] Cons.prems by simp
  qed
qed

lemma splitSpaces_from_current:
  "suf = [] \<or> isSpace (hd suf) \<Longrightarrow> cur \<in> set (splitSpaces_from False cur suf)"
  by (cases suf) auto

lemma splitSpaces_from_skip:
  "pre \<noteq> [] \<Longrightarrow> isSpace (last pre) \<Longrightarrow> r \<longrightarrow> cur = [] \<Longrightarrow>
   set (splitSpaces_from True [] rest) \<subseteq> set (splitSpaces_from r cur (pre @ rest))"
proof (induction pre arbitrary: r cur)
  case Nil
  then show ?case by simp
next
  case (Cons c pre)
  show ?case
  proof (cases "pre = []")
    case True
    then show ?thesis using Cons.prems by auto
  next
    case False
    then have l: "isSpace (last pre)" using Cons.prems by simp
    show ?thesis
    proof (cases "isSpace c")
      case sp: True
      show ?thesis
      proof (cases r)
        case True
        then show ?thesis using Cons.IH [OF False l, of True "[]"] Cons.prems sp by simp
      next
        case r: False
        then show ?thesis using Cons.IH [OF False l, of True "[]"] sp by auto
      qed
    next
      case nsp: False
      then show ?thesis using Cons.IH [OF False l, of False "cur @ [c]"] by simp
    qed
  qed
qed

lemma splitSpaces_complete:
  assumes "wordOf w t"
  shows "w \<in> set (splitSpaces t)"
proof -
  from assms obtain pre suf where t: "t = pre @ w @ suf"
    and p: "pre = [] \<or> isSpace (last pre)" and s: "suf = [] \<or> isSpace (hd suf)"
    and w: "w \<noteq> []" "\<not> list_ex isSpace w"
    unfolding wordOf_def by auto
  have 1: "w \<in> set (splitSpaces_from r [] (w @ suf))" for r
    using splitSpaces_from_word [OF w(2) w(1), of r "[]" suf] splitSpaces_from_current [OF s, of w]
    by simp
  show ?thesis
  proof (cases "pre = []")
    case True
    then show ?thesis using 1 [of False] t by (simp add: splitSpaces_def)
  next
    case False
    then have "set (splitSpaces_from True [] (w @ suf)) \<subseteq> set (splitSpaces_from False [] (pre @ w @ suf))"
      using splitSpaces_from_skip [of pre False "[]" "w @ suf"] p by simp
    then show ?thesis using 1 [of True] t by (auto simp: splitSpaces_def)
  qed
qed

lemma splitSpaces_sound:
  "w \<in> set (splitSpaces t) \<Longrightarrow> w \<noteq> [] \<Longrightarrow> wordOf w t"
  using splitSpaces_from_sound [of w False "[]" t "[]"] by (simp add: splitSpaces_def)

lemma splitSpaces_from_empty_piece:
  "[] \<in> set (splitSpaces_from r cur cs) \<Longrightarrow>
   (cur = [] \<and> (cs = [] \<or> (\<not> r \<and> isSpace (hd cs)))) \<or> (cs \<noteq> [] \<and> isSpace (last cs))"
proof (induction cs arbitrary: r cur)
  case Nil
  then show ?case by simp
next
  case (Cons c cs)
  show ?case
  proof (cases "isSpace c")
    case sp: True
    show ?thesis
    proof (cases r)
      case True
      then have "[] \<in> set (splitSpaces_from True cur cs)" using Cons.prems sp by simp
      from Cons.IH [OF this] show ?thesis using sp by auto
    next
      case False
      then have "cur = [] \<or> [] \<in> set (splitSpaces_from True [] cs)"
        using Cons.prems sp by auto
      then show ?thesis
      proof
        assume "cur = []"
        then show ?thesis using sp False by simp
      next
        assume "[] \<in> set (splitSpaces_from True [] cs)"
        from Cons.IH [OF this] show ?thesis using sp by auto
      qed
    qed
  next
    case False
    then have "[] \<in> set (splitSpaces_from False (cur @ [c]) cs)" using Cons.prems by simp
    from Cons.IH [OF this] show ?thesis by auto
  qed
qed

lemma splitSpaces_empty_piece:
  "[] \<in> set (splitSpaces t) \<Longrightarrow> t = [] \<or> isSpace (hd t) \<or> isSpace (last t)"
  using splitSpaces_from_empty_piece [of False "[]" t] by (auto simp: splitSpaces_def)

lemma wordOf_subset: "wordOf w t \<Longrightarrow> set w \<subseteq> set t"
  unfolding wordOf_def by auto

lemma normalizeText_word:
  assumes "w \<in> set (splitSpaces (normalizeText t))"
  shows "normalizeText w = w"
proof (cases "w = []")
  case True
  then show ?thesis by (simp add: normalizeText_def toLowerCase_def trim_def)
next
  case False
  then have wo: "wordOf w (normalizeText t)" using assms by (rule splitSpaces_sound [rotated])
  then have k: "\<forall>c \<in> set w. isKept c" using wordOf_subset normalizeText_kept by blast
  have "\<forall>c \<in> set w. \<not> isSpace c" using wo unfolding wordOf_def by (simp add: list_ex_iff)
  then have "\<not> isSpace (hd w) \<and> \<not> isSpace (last w)" using False by simp
  then show ?thesis using normalizeText_fixed [OF k] by simp
qed

section \<open>matchesWithTolerance\<close>

lemma getEditDistance_normalized:
  "getEditDistance (normalizeText a) (normalizeText b) = editDistance (normalizeText a) (normalizeText b)"
  by (simp add: getEditDistance_lev normalizeText_idem editDistance_lev)

lemma getEditDistance_word:
  "w \<in> set (splitSpaces (normalizeText t)) \<Longrightarrow>
   getEditDistance (normalizeText a) w = editDistance (normalizeText a) w"
  by (simp add: getEditDistance_lev normalizeText_idem editDistance_lev normalizeText_word)

lemma matches_unfold:
  "matchesWithTolerance query text \<longleftrightarrow>
     sublist (normalizeText query) (normalizeText text) \<or>
     editDistance (normalizeText query) (normalizeText text) \<le> maxDistance (normalizeText query) \<or>
     (\<exists>w \<in> set (splitSpaces (normalizeText text)).
        editDistance (normalizeText query) w \<le> maxDistance (normalizeText query))"
proof (cases "query = []")
  case True
  then have "normalizeText query = []" by (simp add: normalizeText_def toLowerCase_def trim_def)
  then show ?thesis using True by (simp add: matchesWithTolerance_def)
next
  case False
  then show ?thesis
    unfolding matchesWithTolerance_def Let_def list_ex_iff includes_str_sublist
      getEditDistance_normalized
    using getEditDistance_word [of _ "text" query] by auto
qed

section \<open>Filtering and sorting\<close>

lemma filterE_pure:
  "(\<And>x. x \<in> set xs \<Longrightarrow> \<exists>b. p x = Inr b) \<Longrightarrow> filterE p xs = Inr (filter (\<lambda>x. p x = Inr True) xs)"
proof (induction xs)
  case Nil
  show ?case by simp
next
  case (Cons x xs)
  from Cons.prems [of x] obtain b where b: "p x = Inr b" by auto
  have "filterE p xs = Inr (filter (\<lambda>x. p x = Inr True) xs)"
    using Cons by simp
  then show ?case using b by simp
qed

lemma toLowerCase_Nil [simp]: "toLowerCase [] = []"
  by (simp add: toLowerCase_def)

lemma courseMatches_no_query:
  "courseMatches [] [] [] d c = Inr (d = [] \<or> degreeType c = Some d)"
  by (auto simp: courseMatches_def matchesWithTolerance_def split: option.splits)

lemma courseMatches_plainText:
  "plainText c \<Longrightarrow> \<exists>b. courseMatches u a q d c = Inr b"
  by (auto simp: courseMatches_def plainText_def Let_def split: option.splits)

section \<open>parseCSV\<close>

lemma splitLines_from_not_Nil: "splitLines_from cur s \<noteq> []"
  by (induction s arbitrary: cur rule: length_induct) (case_tac xs; simp)

lemma splitLines_not_Nil: "splitLines s \<noteq> []"
  by (simp add: splitLines_def splitLines_from_not_Nil)






section \<open>getFilteredCourses\<close>

lemma getFilteredCourses_unsorted:
  assumes "trim (universitySearch ctl) = []" "trim (courseAreaSearch ctl) = []"
    "trim (courseSearch ctl) = []" "sortFilter ctl = []"
  shows "getFilteredCourses lc ctl courses =
    Inr (filter (\<lambda>c. degreeFilter ctl = [] \<or> degreeType c = Some (degreeFilter ctl)) courses)"
proof -
  have "filterE (courseMatches [] [] [] (degreeFilter ctl)) courses =
      Inr (filter (\<lambda>c. courseMatches [] [] [] (degreeFilter ctl) c = Inr True) courses)"
    by (rule filterE_pure) (simp add: courseMatches_no_query)
  then show ?thesis
    using assms by (simp add: getFilteredCourses_def Let_def courseMatches_no_query)
qed


section \<open>Sorting\<close>

lemma compareField_Inr:
  "compareField field lc a b = Inr v \<Longrightarrow> v = lc (valueToString (field a)) (valueToString (field b))"
  by (auto simp: compareField_def valueToString_def split: option.splits)

lemma compareField_total:
  "field a \<noteq> None \<Longrightarrow> \<exists>v. compareField field lc a b = Inr v"
  by (auto simp: compareField_def)

lemma consistent_strict:
  assumes "consistent lc" "lc x y < 0" "lc y z \<le> 0"
  shows "lc x z < 0"
proof (rule ccontr)
  assume "\<not> lc x z < 0"
  moreover have "lc x z \<le> 0" using assms unfolding consistent_def by (meson less_imp_le)
  ultimately have "lc x z = 0" by simp
  then have "\<not> 0 < lc x z" by simp
  then have "\<not> lc z x < 0" using assms(1) unfolding consistent_def by blast
  moreover have "\<not> 0 < lc z x" using \<open>\<not> lc x z < 0\<close> assms(1) unfolding consistent_def by blast
  ultimately have "lc z x \<le> 0" by simp
  then have "lc y x \<le> 0" using assms(1,3) unfolding consistent_def by blast
  moreover have "0 < lc y x" using assms(1,2) unfolding consistent_def by blast
  ultimately show False by simp
qed

lemma consistent_flip:
  assumes "consistent lc" "\<not> lc x y < 0"
  shows "lc y x \<le> 0"
proof -
  have "\<not> 0 < lc y x" using assms unfolding consistent_def by blast
  then show ?thesis by simp
qed

lemma consistent_zero_sym:
  assumes "consistent lc" "lc x y = 0"
  shows "lc y x = 0"
proof -
  have "\<not> lc x y < 0" "\<not> 0 < lc x y" using assms(2) by simp_all
  then have "\<not> 0 < lc y x" "\<not> lc y x < 0" using assms(1) unfolding consistent_def by blast+
  then show ?thesis by simp
qed

lemma insertE_mset: "insertE cmp x ys = Inr zs \<Longrightarrow> mset zs = add_mset x (mset ys)"
proof (induction ys arbitrary: zs)
  case Nil
  then show ?case by auto
next
  case (Cons y ys)
  then show ?case by (auto split: sum.splits if_splits)
qed

lemma sortE_from_mset: "sortE_from cmp placed xs = Inr ys \<Longrightarrow> mset ys = mset placed + mset xs"
proof (induction xs arbitrary: placed ys)
  case Nil
  then show ?case by simp
next
  case (Cons x xs)
  then show ?case by (auto split: sum.splits dest!: insertE_mset)
qed

lemma sortE_mset: "sortE cmp xs = Inr ys \<Longrightarrow> mset ys = mset xs"
  using sortE_from_mset [of cmp "[]" xs ys] by (simp add: sortE_def)


lemma insertE_sorted:
  assumes "consistent lc"
    and "sorted_wrt (\<lambda>a b. lc (valueToString (field a)) (valueToString (field b)) \<le> 0) ys"
    and "insertE (compareField field lc) x ys = Inr zs"
  shows "sorted_wrt (\<lambda>a b. lc (valueToString (field a)) (valueToString (field b)) \<le> 0) zs \<and>
    filter (\<lambda>a. lc k (valueToString (field a)) = 0) zs =
      filter (\<lambda>a. lc k (valueToString (field a)) = 0) ys @ filter (\<lambda>a. lc k (valueToString (field a)) = 0) [x]"
  using assms(2,3)
proof (induction ys arbitrary: zs)
  case Nil
  then show ?case by auto
next
  case (Cons y ys)
  let ?key = "\<lambda>a. valueToString (field a)"
  let ?R = "\<lambda>a b. lc (?key a) (?key b) \<le> 0"
  let ?E = "\<lambda>a. lc k (?key a) = 0"
  have tr: "?R a b \<Longrightarrow> ?R b c \<Longrightarrow> ?R a c" for a b c
    using assms(1) unfolding consistent_def by blast
  from Cons.prems(2) obtain v where v: "compareField field lc x y = Inr v"
    by (auto split: sum.splits)
  then have vk: "v = lc (?key x) (?key y)" by (rule compareField_Inr)
  show ?case
  proof (cases "v < 0")
    case True
    then have zs: "zs = x # y # ys" using Cons.prems(2) v by simp
    have xy: "?R x y" using True vk by simp
    have after: "lc (?key x) (?key z) < 0" if "z \<in> set (y # ys)" for z
    proof -
      have "lc (?key y) (?key z) \<le> 0"
      proof (cases "z = y")
        case True
        have "\<not> lc (?key y) (?key y) < 0" "\<not> 0 < lc (?key y) (?key y)"
          using assms(1) unfolding consistent_def by (metis less_asym)+
        then show ?thesis using True by simp
      next
        case False
        then show ?thesis using that Cons.prems(1) by auto
      qed
      then show ?thesis using consistent_strict [OF assms(1)] True vk by blast
    qed
    have s: "sorted_wrt ?R zs"
      using zs Cons.prems(1) after by (auto simp: less_imp_le)
    have "filter ?E (y # ys) = []" if "?E x"
    proof -
      have "\<not> ?E z" if z: "z \<in> set (y # ys)" for z
      proof
        assume e: "?E z"
        have "lc (?key x) k = 0" using consistent_zero_sym [OF assms(1) \<open>?E x\<close>] .
        then have "lc (?key x) (?key z) \<le> 0" "lc (?key z) (?key x) \<le> 0"
          using e \<open>?E x\<close> consistent_zero_sym [OF assms(1) e] assms(1)
          unfolding consistent_def by (metis order_refl)+
        moreover have "0 < lc (?key z) (?key x)"
          using after [OF z] assms(1) unfolding consistent_def by blast
        ultimately show False by simp
      qed
      then show ?thesis by (simp add: filter_empty_conv)
    qed
    then have "filter ?E zs = filter ?E (y # ys) @ filter ?E [x]"
      unfolding zs by (cases "?E x") simp_all
    with s show ?thesis by blast
  next
    case False
    with Cons.prems(2) v obtain zs' where zs': "insertE (compareField field lc) x ys = Inr zs'"
      "zs = y # zs'" by (auto split: sum.splits)
    have sy: "sorted_wrt ?R ys" using Cons.prems(1) by simp
    from Cons.IH [OF sy zs'(1)] have ih: "sorted_wrt ?R zs'"
      "filter ?E zs' = filter ?E ys @ filter ?E [x]" by auto
    have yx: "?R y x" using consistent_flip [OF assms(1)] False vk by blast
    have "set zs' = insert x (set ys)"
      using insertE_mset [OF zs'(1)] by (metis set_mset_add_mset_insert set_mset_mset)
    then have "\<forall>z \<in> set zs'. ?R y z" using yx Cons.prems(1) by auto
    then have "sorted_wrt ?R zs" using ih(1) zs'(2) by simp
    moreover have "filter ?E zs = filter ?E (y # ys) @ filter ?E [x]"
      using ih(2) zs'(2) by simp
    ultimately show ?thesis by blast
  qed
qed

lemma sortE_from_sorted:
  assumes "consistent lc"
    and "sorted_wrt (\<lambda>a b. lc (valueToString (field a)) (valueToString (field b)) \<le> 0) placed"
    and "sortE_from (compareField field lc) placed xs = Inr ys"
  shows "sorted_wrt (\<lambda>a b. lc (valueToString (field a)) (valueToString (field b)) \<le> 0) ys \<and>
    filter (\<lambda>a. lc k (valueToString (field a)) = 0) ys =
      filter (\<lambda>a. lc k (valueToString (field a)) = 0) placed @ filter (\<lambda>a. lc k (valueToString (field a)) = 0) xs"
  using assms(2,3)
proof (induction xs arbitrary: placed)
  case Nil
  then show ?case by simp
next
  case (Cons x xs)
  from Cons.prems(2) obtain p where p: "insertE (compareField field lc) x placed = Inr p"
    "sortE_from (compareField field lc) p xs = Inr ys" by (auto split: sum.splits)
  from insertE_sorted [OF assms(1) Cons.prems(1) p(1), of k] Cons.IH [OF _ p(2)]
  show ?case by simp
qed

lemma sortE_sorted:
  assumes "consistent lc" and "sortE (compareField field lc) xs = Inr ys"
  shows "sorted_wrt (\<lambda>a b. lc (valueToString (field a)) (valueToString (field b)) \<le> 0) ys \<and>
    filter (\<lambda>a. lc k (valueToString (field a)) = 0) ys = filter (\<lambda>a. lc k (valueToString (field a)) = 0) xs"
  using sortE_from_sorted [OF assms(1), of field "[]" xs ys k] assms(2) by (simp add: sortE_def)

lemma insertE_total:
  "field x \<noteq> None \<Longrightarrow> \<exists>zs. insertE (compareField field lc) x ys = Inr zs"
proof (induction ys)
  case Nil
  show ?case by simp
next
  case (Cons y ys)
  from compareField_total [of field x lc y] Cons.prems obtain v
    where "compareField field lc x y = Inr v" by blast
  then show ?case using Cons by auto
qed

lemma sortE_from_total:
  "\<forall>x \<in> set xs. field x \<noteq> None \<Longrightarrow> \<exists>ys. sortE_from (compareField field lc) placed xs = Inr ys"
proof (induction xs arbitrary: placed)
  case Nil
  show ?case by simp
next
  case (Cons x xs)
  from insertE_total [of field x lc placed] Cons.prems obtain p
    where "insertE (compareField field lc) x placed = Inr p" by auto
  then show ?case using Cons by auto
qed

lemma sortE_total:
  "\<forall>x \<in> set xs. field x \<noteq> None \<Longrightarrow> \<exists>ys. sortE (compareField field lc) xs = Inr ys"
  unfolding sortE_def by (rule sortE_from_total)

lemma compareCodeUnits_antisym: "compareCodeUnits x y < 0 \<longleftrightarrow> 0 < compareCodeUnits y x"
  by (induction x y rule: compareCodeUnits.induct) auto

lemma compareCodeUnits_trans:
  "compareCodeUnits x y \<le> 0 \<Longrightarrow> compareCodeUnits y z \<le> 0 \<Longrightarrow> compareCodeUnits x z \<le> 0"
proof (induction x y arbitrary: z rule: compareCodeUnits.induct)
  case 1
  then show ?case by simp
next
  case (2 y ys)
  then show ?case by (cases z) simp_all
next
  case (3 x xs)
  then show ?case by simp
next
  case (4 x xs y ys)
  show ?case
  proof (cases z)
    case Nil
    then show ?thesis using "4.prems" by simp
  next
    case (Cons w ws)
    have a: "code x < code y \<or> (code x = code y \<and> compareCodeUnits xs ys \<le> 0)"
      using "4.prems"(1) by (simp split: if_splits)
    have b: "code y < code w \<or> (code y = code w \<and> compareCodeUnits ys ws \<le> 0)"
      using "4.prems"(2) Cons by (simp split: if_splits)
    show ?thesis
    proof (cases "code x < code w")
      case True
      then show ?thesis using Cons by simp
    next
      case False
      then have e: "code x = code y" "code y = code w"
        and l: "compareCodeUnits xs ys \<le> 0" "compareCodeUnits ys ws \<le> 0"
        using a b by auto
      have "compareCodeUnits xs ws \<le> 0"
        using "4.IH" [of ws] e l by simp
      then show ?thesis using Cons e by simp
    qed
  qed
qed

lemma consistent_compareCodeUnits: "consistent compareCodeUnits"
  unfolding consistent_def using compareCodeUnits_antisym compareCodeUnits_trans by blast

lemma consistent_collateLetters: "consistent collateLetters"
  using consistent_compareCodeUnits unfolding consistent_def collateLetters_def by blast

lemma filterE_Inr: "filterE p xs = Inr ys \<Longrightarrow> ys = filter (\<lambda>x. p x = Inr True) xs"
proof (induction xs arbitrary: ys)
  case Nil
  then show ?case by simp
next
  case (Cons x xs)
  then show ?case by (auto split: sum.splits if_splits)
qed

lemma getFilteredCourses_cases:
  assumes "getFilteredCourses lc ctl courses = Inr ys"
  shows "(sortFilter ctl = ''university'' \<longrightarrow>
            sortE (compareField universityName lc) (filter (selected ctl) courses) = Inr ys) \<and>
         (sortFilter ctl = [] \<longrightarrow> ys = filter (selected ctl) courses)"
proof -
  let ?p = "courseMatches (toLowerCase (trim (universitySearch ctl)))
      (toLowerCase (trim (courseAreaSearch ctl))) (toLowerCase (trim (courseSearch ctl)))
      (degreeFilter ctl)"
  from assms obtain fs where fs: "filterE ?p courses = Inr fs"
    by (auto simp: getFilteredCourses_def Let_def split: sum.splits)
  have f: "fs = filter (selected ctl) courses"
    using filterE_Inr [OF fs] unfolding selected_def .
  show ?thesis
    using assms fs unfolding f
    by (auto simp: getFilteredCourses_def Let_def split: sum.splits if_splits)
qed

lemma getFilteredCourses_total:
  assumes "list_all plainText courses" "sortFilter ctl = ''university'' \<or> sortFilter ctl = []"
  shows "\<exists>ys. getFilteredCourses lc ctl courses = Inr ys"
proof -
  let ?p = "courseMatches (toLowerCase (trim (universitySearch ctl)))
      (toLowerCase (trim (courseAreaSearch ctl))) (toLowerCase (trim (courseSearch ctl)))
      (degreeFilter ctl)"
  have "\<And>c. c \<in> set courses \<Longrightarrow> \<exists>b. ?p c = Inr b"
    using assms(1) courseMatches_plainText by (auto simp: list_all_iff)
  then have f: "filterE ?p courses = Inr (filter (\<lambda>c. ?p c = Inr True) courses)"
    by (rule filterE_pure)
  have "\<forall>c \<in> set (filter (\<lambda>c. ?p c = Inr True) courses). universityName c \<noteq> None"
    using assms(1) by (auto simp: plainText_def list_all_iff)
  from sortE_total [OF this, of lc] obtain zs where
    "sortE (compareField universityName lc) (filter (\<lambda>c. ?p c = Inr True) courses) = Inr zs"
    by blast
  then show ?thesis
    using f assms(2) by (auto simp: getFilteredCourses_def Let_def)
qed

section \<open>The comma-separated form\<close>

lemma quote_not_comma: "commaChar \<noteq> quoteChar"
  by (simp add: commaChar_def quoteChar_def)

lemma loop_plain:
  "\<not> list_ex (\<lambda>c. c = quoteChar \<or> c = commaChar) s \<Longrightarrow>
   parseCSVLine_loop vs cur q (s @ rest) = parseCSVLine_loop vs (cur @ s) q rest"
  by (induction s arbitrary: cur) auto

lemma loop_doubled:
  "parseCSVLine_loop vs cur q (quoteChar # quoteChar # rest)
     = parseCSVLine_loop vs (cur @ [quoteChar]) q rest"
  by simp

lemma loop_toggle:
  "rest = [] \<or> hd rest \<noteq> quoteChar \<Longrightarrow>
   parseCSVLine_loop vs cur q (quoteChar # rest) = parseCSVLine_loop vs cur (\<not> q) rest"
  by (cases rest) auto

lemma loop_kept:
  "c \<noteq> quoteChar \<Longrightarrow>
   parseCSVLine_loop vs cur True (c # rest) = parseCSVLine_loop vs (cur @ [c]) True rest"
  by simp

lemma loop_comma:
  "parseCSVLine_loop vs cur False (commaChar # rest)
     = parseCSVLine_loop (vs @ [trim cur]) [] False rest"
  using quote_not_comma by simp

lemma escapeQ_Cons:
  "escapeQ (c # t) = (if c = quoteChar then [quoteChar, quoteChar] else [c]) @ escapeQ t"
  by (simp add: escapeQ_def)

lemma loop_inside:
  "rest = [] \<or> hd rest \<noteq> quoteChar \<Longrightarrow>
   parseCSVLine_loop vs cur True (escapeQ t @ quoteChar # rest) = parseCSVLine_loop vs (cur @ t) False rest"
proof (induction t arbitrary: cur)
  case Nil
  then show ?case using loop_toggle [of rest vs cur True] by (simp add: escapeQ_def)
next
  case (Cons c t)
  show ?case
  proof (cases "c = quoteChar")
    case True
    have "parseCSVLine_loop vs cur True (escapeQ (c # t) @ quoteChar # rest)
        = parseCSVLine_loop vs (cur @ [quoteChar]) True (escapeQ t @ quoteChar # rest)"
      using True loop_doubled [of vs cur True "escapeQ t @ quoteChar # rest"]
      by (simp del: parseCSVLine_loop.simps add: escapeQ_Cons)
    also have "\<dots> = parseCSVLine_loop vs ((cur @ [quoteChar]) @ t) False rest"
      by (rule Cons.IH [OF Cons.prems])
    finally show ?thesis using True by simp
  next
    case False
    have "parseCSVLine_loop vs cur True (escapeQ (c # t) @ quoteChar # rest)
        = parseCSVLine_loop vs (cur @ [c]) True (escapeQ t @ quoteChar # rest)"
      using False loop_kept [of c vs cur "escapeQ t @ quoteChar # rest"]
      by (simp del: parseCSVLine_loop.simps add: escapeQ_Cons)
    also have "\<dots> = parseCSVLine_loop vs ((cur @ [c]) @ t) False rest"
      by (rule Cons.IH [OF Cons.prems])
    finally show ?thesis by simp
  qed
qed

lemma loop_quoted:
  "list_ex (\<lambda>c. c \<noteq> quoteChar) t \<Longrightarrow> rest = [] \<or> hd rest \<noteq> quoteChar \<Longrightarrow>
   parseCSVLine_loop vs cur False (quoteChar # escapeQ t @ quoteChar # rest)
     = parseCSVLine_loop vs (cur @ t) False rest"
proof (induction t arbitrary: cur)
  case Nil
  then show ?case by simp
next
  case (Cons c t)
  show ?case
  proof (cases "c = quoteChar")
    case True
    then have ex: "list_ex (\<lambda>c. c \<noteq> quoteChar) t" using Cons.prems(1) by simp
    have "parseCSVLine_loop vs cur False (quoteChar # escapeQ (c # t) @ quoteChar # rest)
        = parseCSVLine_loop vs (cur @ [quoteChar]) False (quoteChar # escapeQ t @ quoteChar # rest)"
      using True loop_doubled [of vs cur False "quoteChar # escapeQ t @ quoteChar # rest"]
      by (simp del: parseCSVLine_loop.simps add: escapeQ_Cons)
    also have "\<dots> = parseCSVLine_loop vs ((cur @ [quoteChar]) @ t) False rest"
      by (rule Cons.IH [OF ex Cons.prems(2)])
    finally show ?thesis using True by simp
  next
    case False
    have "hd (escapeQ (c # t) @ quoteChar # rest) \<noteq> quoteChar"
      using False by (simp add: escapeQ_Cons)
    then have "parseCSVLine_loop vs cur False (quoteChar # escapeQ (c # t) @ quoteChar # rest)
        = parseCSVLine_loop vs cur True (escapeQ (c # t) @ quoteChar # rest)"
      using loop_toggle [of "escapeQ (c # t) @ quoteChar # rest" vs cur False]
      by (simp del: parseCSVLine_loop.simps)
    then show ?thesis using loop_inside [OF Cons.prems(2), of vs cur "c # t"] by simp
  qed
qed

lemma loop_field:
  assumes "wellFormedField f" "rest = [] \<or> hd rest = commaChar"
  shows "parseCSVLine_loop vs [] False (encodeField f @ rest)
    = parseCSVLine_loop vs (case f of Plain s \<Rightarrow> s | Quoted s \<Rightarrow> s) False rest"
proof (cases f)
  case (Plain s)
  then show ?thesis using assms(1) loop_plain [of s vs "[]" False rest] by simp
next
  case (Quoted s)
  have "rest = [] \<or> hd rest \<noteq> quoteChar" using assms(2) quote_not_comma by auto
  then show ?thesis using Quoted assms(1) loop_quoted [of s rest vs "[]"] by simp
qed

lemma loop_line:
  "fs \<noteq> [] \<Longrightarrow> list_all wellFormedField fs \<Longrightarrow>
   parseCSVLine_loop vs [] False (encodeLine fs) = vs @ map fieldText fs"
proof (induction fs arbitrary: vs)
  case Nil
  then show ?case by simp
next
  case (Cons f fs)
  have w: "wellFormedField f" using Cons.prems by simp
  have t: "trim (case f of Plain s \<Rightarrow> s | Quoted s \<Rightarrow> s) = fieldText f" by (cases f) simp_all
  show ?case
  proof (cases fs)
    case Nil
    have "parseCSVLine_loop vs [] False (encodeField f @ [])
        = parseCSVLine_loop vs (case f of Plain s \<Rightarrow> s | Quoted s \<Rightarrow> s) False []"
      by (rule loop_field [OF w]) simp
    then show ?thesis using Nil t by (simp add: encodeLine_def)
  next
    case (Cons g gs)
    have e: "encodeLine (f # fs) = encodeField f @ commaChar # encodeLine fs"
      using Cons by (simp add: encodeLine_def)
    have "parseCSVLine_loop vs [] False (encodeField f @ commaChar # encodeLine fs)
        = parseCSVLine_loop vs (case f of Plain s \<Rightarrow> s | Quoted s \<Rightarrow> s) False (commaChar # encodeLine fs)"
      by (rule loop_field [OF w]) simp
    also have "\<dots> = parseCSVLine_loop (vs @ [fieldText f]) [] False (encodeLine fs)"
      using t by (simp only: loop_comma)
    also have "\<dots> = (vs @ [fieldText f]) @ map fieldText fs"
      using Cons.IH [of "vs @ [fieldText f]"] Cons.prems \<open>fs = g # gs\<close> by simp
    finally show ?thesis using e by simp
  qed
qed

lemma parseCSVLine_encodeLine:
  "wellFormedLine fs \<Longrightarrow> parseCSVLine (encodeLine fs) = map fieldText fs"
  using loop_line [of fs "[]"] by (simp add: wellFormedLine_def parseCSVLine_def)











lemma parseCSVLine_empty_quoted: "parseCSVLine [quoteChar, quoteChar] = [[quoteChar]]"
  by code_simp





section \<open>The claims\<close>

text \<open>
  C1. For any query and candidate text: if the normalized text contains the normalized
  query as a substring, \<open>matchesWithTolerance\<close> returns true; otherwise, with the
  threshold the larger of 2 and a fifth of the query length rounded down, it returns
  true if and only if the edit distance between the query and the whole text is at most
  the threshold, or the edit distance between the query and some whitespace-delimited
  word of the text is. Query and text are the normalized ones throughout, as in the
  source, and the distance and the words are those of the specification
  (\<open>editDistance\<close>, \<open>wordOf\<close>).
\<close>

theorem matchesWithTolerance_spec:
  "(sublist (normalizeText query) (normalizeText text) \<longrightarrow> matchesWithTolerance query text) \<and>
   (\<not> sublist (normalizeText query) (normalizeText text) \<longrightarrow>
      (matchesWithTolerance query text \<longleftrightarrow>
         editDistance (normalizeText query) (normalizeText text)
           \<le> max 2 (length (normalizeText query) div 5) \<or>
         (\<exists>w. wordOf w (normalizeText text) \<and>
            editDistance (normalizeText query) w \<le> max 2 (length (normalizeText query) div 5))))"
proof -
  let ?q = "normalizeText query" and ?t = "normalizeText text"
  let ?thr = "max 2 (length ?q div 5)"
  have "(\<exists>w \<in> set (splitSpaces ?t). editDistance ?q w \<le> ?thr) \<or> editDistance ?q ?t \<le> ?thr
    \<longleftrightarrow> (\<exists>w. wordOf w ?t \<and> editDistance ?q w \<le> ?thr) \<or> editDistance ?q ?t \<le> ?thr"
  proof
    assume "(\<exists>w \<in> set (splitSpaces ?t). editDistance ?q w \<le> ?thr) \<or> editDistance ?q ?t \<le> ?thr"
    then show "(\<exists>w. wordOf w ?t \<and> editDistance ?q w \<le> ?thr) \<or> editDistance ?q ?t \<le> ?thr"
    proof
      assume "\<exists>w \<in> set (splitSpaces ?t). editDistance ?q w \<le> ?thr"
      then obtain w where w: "w \<in> set (splitSpaces ?t)" "editDistance ?q w \<le> ?thr" by blast
      show ?thesis
      proof (cases "w = []")
        case True
        then have "?t = []"
          using splitSpaces_empty_piece [of ?t] w(1) normalizeText_ends [of "text"] by blast
        then show ?thesis using w(2) True by simp
      next
        case False
        then show ?thesis using splitSpaces_sound [OF w(1)] w(2) by blast
      qed
    qed simp
  next
    assume "(\<exists>w. wordOf w ?t \<and> editDistance ?q w \<le> ?thr) \<or> editDistance ?q ?t \<le> ?thr"
    then show "(\<exists>w \<in> set (splitSpaces ?t). editDistance ?q w \<le> ?thr) \<or> editDistance ?q ?t \<le> ?thr"
      using splitSpaces_complete by blast
  qed
  then show ?thesis unfolding matches_unfold [of query "text"] maxDistance_def by blast
qed

text \<open>
  The misspelt query \<open>enginering\<close> is not contained in \<open>engineering\<close> and matches
  by its distance.
\<close>

theorem matchesWithTolerance_spec_witness:
  "matchesWithTolerance ''enginering'' ''Engineering'' \<and>
   \<not> sublist (normalizeText ''enginering'') (normalizeText ''Engineering'') \<and>
   (editDistance (normalizeText ''enginering'') (normalizeText ''Engineering'')
      \<le> max 2 (length (normalizeText ''enginering'') div 5) \<or>
    (\<exists>w. wordOf w (normalizeText ''Engineering'') \<and>
       editDistance (normalizeText ''enginering'') w
         \<le> max 2 (length (normalizeText ''enginering'') div 5)))"
proof -
  have m: "matchesWithTolerance ''enginering'' ''Engineering''" by code_simp
  have "\<not> includes_str (normalizeText ''Engineering'') (normalizeText ''enginering'')"
    by code_simp
  then have n: "\<not> sublist (normalizeText ''enginering'') (normalizeText ''Engineering'')"
    by (simp add: includes_str_sublist)
  show ?thesis
    using matchesWithTolerance_spec [of "''enginering''" "''Engineering''"] m n by blast
qed

text \<open>
  C2. For strings \<open>a\<close> and \<open>b\<close> that the caller has normalized, \<open>getEditDistance a b\<close>
  is the minimum number of single-character insertions, deletions and substitutions
  that transform \<open>a\<close> into \<open>b\<close>: that many edits do it, and no fewer. If either is
  empty the result is the length of the other, and the distance between \<open>kitten\<close> and
  \<open>sitting\<close> is 3.
\<close>

theorem getEditDistance_minimal:
  assumes "normalizeText a = a" and "normalizeText b = b"
  shows "getEditDistance a b = editDistance a b
    \<and> edits (getEditDistance a b) a b
    \<and> (\<forall>n. edits n a b \<longrightarrow> getEditDistance a b \<le> n)
    \<and> (a = [] \<longrightarrow> getEditDistance a b = length b)
    \<and> (b = [] \<longrightarrow> getEditDistance a b = length a)
    \<and> getEditDistance ''kitten'' ''sitting'' = 3"
proof -
  have g: "getEditDistance a b = lev a b" using assms by (simp add: getEditDistance_lev)
  have k: "getEditDistance ''kitten'' ''sitting'' = 3" by code_simp
  show ?thesis
    unfolding g using k by (auto simp: editDistance_lev edits_lev edits_lev_le)
qed

text \<open>Two edits turn \<open>flaw\<close> into \<open>lawn\<close>, and one edit does not.\<close>

theorem getEditDistance_minimal_witness:
  "normalizeText ''flaw'' = ''flaw'' \<and> normalizeText ''lawn'' = ''lawn''
   \<and> getEditDistance ''flaw'' ''lawn'' = 2
   \<and> editDistance ''flaw'' ''lawn'' = 2
   \<and> edits 2 ''flaw'' ''lawn''
   \<and> \<not> edits 1 ''flaw'' ''lawn''"
proof -
  have a: "normalizeText ''flaw'' = ''flaw''" by code_simp
  have b: "normalizeText ''lawn'' = ''lawn''" by code_simp
  have c: "getEditDistance ''flaw'' ''lawn'' = 2" by code_simp
  show ?thesis
    using getEditDistance_minimal [OF a b] a b c by auto
qed




text \<open>
  C4. In the initial state (the three search inputs empty or blank, no degree and no
  sort chosen) \<open>renderCourses\<close> shows the first 10 records of the collection, in the
  order of the dataset, and the count it reports is the number of all records.
\<close>

theorem renderCourses_initial:
  assumes "trim (universitySearch ctl) = []" and "trim (courseAreaSearch ctl) = []"
    and "trim (courseSearch ctl) = []" and "degreeFilter ctl = []" and "sortFilter ctl = []"
  shows "renderCourses lc ctl courses =
    Inr \<lparr> visibleCourses = take 10 courses,
          resultsCount = numberToString (length courses) @ '' course(s) found'',
          emptyStateHidden = (courses \<noteq> []) \<rparr>"
  using getFilteredCourses_unsorted [OF assms(1,2,3,5), of lc courses] assms
  by (simp add: renderCourses_def Let_def)

text \<open>Twelve records: ten are shown and twelve are counted.\<close>

theorem renderCourses_initial_witness:
  "length manyCourses = 12 \<and>
   renderCourses compareCodeUnits noControls manyCourses =
     Inr \<lparr> visibleCourses = take 10 manyCourses,
           resultsCount = ''12 course(s) found'',
           emptyStateHidden = True \<rparr>"
proof -
  have a: "trim (universitySearch noControls) = []" "trim (courseAreaSearch noControls) = []"
    "trim (courseSearch noControls) = []" "degreeFilter noControls = []" "sortFilter noControls = []"
    by code_simp+
  have n: "length manyCourses = 12" by (simp add: manyCourses_def)
  have s: "numberToString 12 = ''12''" by code_simp
  have e: "manyCourses \<noteq> []" using n by auto
  show ?thesis
    using renderCourses_initial [OF a, of compareCodeUnits manyCourses] n s e by simp
qed

text \<open>
  C5. With a degree type chosen and no other filter and no sort, the result holds
  exactly the records whose \<open>degreeType\<close> is the chosen value, in the order of the
  collection.
\<close>

theorem getFilteredCourses_degree:
  assumes "trim (universitySearch ctl) = []" and "trim (courseAreaSearch ctl) = []"
    and "trim (courseSearch ctl) = []" and "sortFilter ctl = []" and "degreeFilter ctl \<noteq> []"
  shows "getFilteredCourses lc ctl courses =
    Inr (filter (\<lambda>c. degreeType c = Some (degreeFilter ctl)) courses)"
  using getFilteredCourses_unsorted [OF assms(1,2,3,4), of lc courses] assms(5) by simp

text \<open>Of the three sample records the first and the third are Bachelor courses.\<close>

theorem getFilteredCourses_degree_witness:
  "getFilteredCourses compareCodeUnits (noControls \<lparr> degreeFilter := ''Bachelor'' \<rparr>) sampleCourses =
     Inr [sampleCourses ! 0, sampleCourses ! 2]"
proof -
  let ?ctl = "noControls \<lparr> degreeFilter := ''Bachelor'' \<rparr>"
  have a: "trim (universitySearch ?ctl) = []" "trim (courseAreaSearch ?ctl) = []"
    "trim (courseSearch ?ctl) = []" "sortFilter ?ctl = []" "degreeFilter ?ctl \<noteq> []"
    by code_simp+
  show ?thesis
    using getFilteredCourses_degree [OF a, of compareCodeUnits sampleCourses]
    by (simp add: sampleCourses_def noControls_def)
qed

text \<open>
  C6, as amended. With the sort key university name, every result is the accepted
  records in non-decreasing order of \<open>universityName\<close> as \<open>localeCompare\<close> compares
  the names, and records whose names compare equal keep the order of the dataset; with
  no sort key the accepted records keep the order of the dataset. The order of
  \<open>localeCompare\<close> is the collation of the runtime, not the lexicographic order of the
  code units. On records of the data model a result is returned.
\<close>

theorem getFilteredCourses_sort:
  assumes "consistent lc"
  shows "(sortFilter ctl = ''university'' \<longrightarrow>
      (\<forall>ys. getFilteredCourses lc ctl courses = Inr ys \<longrightarrow>
         mset ys = mset (filter (selected ctl) courses) \<and>
         sorted_wrt (\<lambda>a b. lc (valueToString (universityName a)) (valueToString (universityName b)) \<le> 0) ys \<and>
         (\<forall>k. filter (\<lambda>a. lc k (valueToString (universityName a)) = 0) ys =
              filter (\<lambda>a. lc k (valueToString (universityName a)) = 0) (filter (selected ctl) courses))))
    \<and> (sortFilter ctl = [] \<longrightarrow>
         (\<forall>ys. getFilteredCourses lc ctl courses = Inr ys \<longrightarrow> ys = filter (selected ctl) courses))
    \<and> (list_all plainText courses \<and> (sortFilter ctl = ''university'' \<or> sortFilter ctl = []) \<longrightarrow>
         (\<exists>ys. getFilteredCourses lc ctl courses = Inr ys))"
proof (intro conjI impI allI)
  fix ys
  assume u: "sortFilter ctl = ''university''" and g: "getFilteredCourses lc ctl courses = Inr ys"
  then have s: "sortE (compareField universityName lc) (filter (selected ctl) courses) = Inr ys"
    using getFilteredCourses_cases [OF g] by simp
  show "mset ys = mset (filter (selected ctl) courses)" using sortE_mset [OF s] .
  show "sorted_wrt (\<lambda>a b. lc (valueToString (universityName a)) (valueToString (universityName b)) \<le> 0) ys"
    using sortE_sorted [OF assms s] by simp
  fix k
  show "filter (\<lambda>a. lc k (valueToString (universityName a)) = 0) ys =
      filter (\<lambda>a. lc k (valueToString (universityName a)) = 0) (filter (selected ctl) courses)"
    using sortE_sorted [OF assms s, of k] by blast
next
  fix ys
  assume "sortFilter ctl = []" and g: "getFilteredCourses lc ctl courses = Inr ys"
  then show "ys = filter (selected ctl) courses" using getFilteredCourses_cases [OF g] by simp
next
  assume "list_all plainText courses \<and> (sortFilter ctl = ''university'' \<or> sortFilter ctl = [])"
  then show "\<exists>ys. getFilteredCourses lc ctl courses = Inr ys"
    using getFilteredCourses_total by blast
qed

text \<open>Four records, sorted by the collation of letters: Bologna, eCampus, Firenze, Pisa.\<close>

theorem getFilteredCourses_sort_witness:
  "consistent collateLetters \<and> list_all plainText sampleUniversities \<and>
   getFilteredCourses collateLetters sortByUniversity sampleUniversities
     = Inr [sampleCourses ! 1, eCampus, firenze, sampleCourses ! 0] \<and>
   map universityName [sampleCourses ! 1, eCampus, firenze, sampleCourses ! 0]
     = [Some ''Bologna'', Some ''eCampus'', Some ''Firenze'', Some ''Pisa''] \<and>
   sorted_wrt (\<lambda>a b. collateLetters (valueToString (universityName a)) (valueToString (universityName b)) \<le> 0)
     [sampleCourses ! 1, eCampus, firenze, sampleCourses ! 0]"
proof -
  have p: "list_all plainText sampleUniversities"
    by (simp add: sampleUniversities_def firenze_def eCampus_def sampleCourses_def plainText_def)
  have s: "sortFilter sortByUniversity = ''university''" by (simp add: sortByUniversity_def)
  have g: "getFilteredCourses collateLetters sortByUniversity sampleUniversities
     = Inr [sampleCourses ! 1, eCampus, firenze, sampleCourses ! 0]" by code_simp
  have n: "map universityName [sampleCourses ! 1, eCampus, firenze, sampleCourses ! 0]
     = [Some ''Bologna'', Some ''eCampus'', Some ''Firenze'', Some ''Pisa'']"
    by (simp add: firenze_def eCampus_def sampleCourses_def)
  show ?thesis
    using getFilteredCourses_sort [OF consistent_collateLetters, of sortByUniversity sampleUniversities]
      s g p n consistent_collateLetters by simp
qed

text \<open>
  C6 as stated fails: sorted by university name, eCampus comes before Firenze, and in
  the lexicographic order of the code units it comes after it (\<open>e\<close> is above \<open>F\<close>).
\<close>

theorem getFilteredCourses_sort_counterexample:
  "getFilteredCourses collateLetters sortByUniversity [firenze, eCampus] = Inr [eCampus, firenze] \<and>
   universityName eCampus = Some ''eCampus'' \<and> universityName firenze = Some ''Firenze'' \<and>
   compareCodeUnits ''eCampus'' ''Firenze'' = 1 \<and>
   \<not> sorted_wrt (\<lambda>a b. compareCodeUnits (valueToString (universityName a))
                         (valueToString (universityName b)) \<le> 0) [eCampus, firenze]"
proof -
  have g: "getFilteredCourses collateLetters sortByUniversity [firenze, eCampus] = Inr [eCampus, firenze]"
    by code_simp
  have c: "compareCodeUnits ''eCampus'' ''Firenze'' = 1" by code_simp
  show ?thesis
    using g c by (simp add: firenze_def eCampus_def valueToString_def)
qed

text \<open>
  C7. A quoted field with embedded commas and doubled quotes is one field: the commas
  inside the quotes do not separate, and every doubled quote is one quote character.
  This holds for every line of plain and quoted fields, for every content of a quoted
  field that has a code unit other than the quote, and so for the field of the
  specification.
\<close>

theorem parseCSVLine_quoted:
  "(wellFormedLine fs \<longrightarrow> parseCSVLine (encodeLine fs) = map fieldText fs) \<and>
   (list_ex (\<lambda>c. c \<noteq> quoteChar) t \<longrightarrow>
      parseCSVLine (quoteChar # escapeQ t @ [quoteChar]) = [trim t]) \<and>
   quoteChar # escapeQ ''Bio, Tech \"Plus\"'' @ [quoteChar] = ''\"Bio, Tech \"\"Plus\"\"\"'' \<and>
   parseCSVLine ''\"Bio, Tech \"\"Plus\"\"\"'' = [''Bio, Tech \"Plus\"'']"
proof -
  have 1: "wellFormedLine fs \<longrightarrow> parseCSVLine (encodeLine fs) = map fieldText fs"
    using parseCSVLine_encodeLine by blast
  have 2: "parseCSVLine (quoteChar # escapeQ t @ [quoteChar]) = [trim t]"
    if "list_ex (\<lambda>c. c \<noteq> quoteChar) t"
    using parseCSVLine_encodeLine [of "[Quoted t]"] that
    by (simp add: wellFormedLine_def encodeLine_def)
  have 3: "quoteChar # escapeQ ''Bio, Tech \"Plus\"'' @ [quoteChar] = ''\"Bio, Tech \"\"Plus\"\"\"''"
    by code_simp
  have 4: "parseCSVLine ''\"Bio, Tech \"\"Plus\"\"\"'' = [''Bio, Tech \"Plus\"'']"
    by code_simp
  show ?thesis using 1 2 3 4 by blast
qed

text \<open>The field of the specification, between two plain fields and alone.\<close>

theorem parseCSVLine_quoted_witness:
  "wellFormedLine sampleLineFields \<and>
   list_ex (\<lambda>c. c \<noteq> quoteChar) ''Bio, Tech \"Plus\"'' \<and>
   encodeLine sampleLineFields = ''B12,\"Bio, Tech \"\"Plus\"\"\",Torino'' \<and>
   parseCSVLine ''B12,\"Bio, Tech \"\"Plus\"\"\",Torino'' = [''B12'', ''Bio, Tech \"Plus\"'', ''Torino''] \<and>
   parseCSVLine (quoteChar # escapeQ ''Bio, Tech \"Plus\"'' @ [quoteChar]) = [''Bio, Tech \"Plus\"'']"
proof -
  have w: "wellFormedLine sampleLineFields" by code_simp
  have x: "list_ex (\<lambda>c. c \<noteq> quoteChar) ''Bio, Tech \"Plus\"''" by code_simp
  have e: "encodeLine sampleLineFields = ''B12,\"Bio, Tech \"\"Plus\"\"\",Torino''" by code_simp
  have m: "map fieldText sampleLineFields = [''B12'', ''Bio, Tech \"Plus\"'', ''Torino'']"
    by code_simp
  have t: "trim ''Bio, Tech \"Plus\"'' = ''Bio, Tech \"Plus\"''" by code_simp
  note inst = parseCSVLine_quoted [of sampleLineFields "''Bio, Tech \"Plus\"''"]
  from inst w have "parseCSVLine (encodeLine sampleLineFields) = map fieldText sampleLineFields"
    by blast
  then have a: "parseCSVLine ''B12,\"Bio, Tech \"\"Plus\"\"\",Torino'' = [''B12'', ''Bio, Tech \"Plus\"'', ''Torino'']"
    unfolding e m .
  from inst x have "parseCSVLine (quoteChar # escapeQ ''Bio, Tech \"Plus\"'' @ [quoteChar])
      = [trim ''Bio, Tech \"Plus\"'']" by blast
  then have b: "parseCSVLine (quoteChar # escapeQ ''Bio, Tech \"Plus\"'' @ [quoteChar])
      = [''Bio, Tech \"Plus\"'']"
    unfolding t .
  show ?thesis by (intro conjI w x e a b)
qed

text \<open>C8. The empty query matches every text.\<close>

theorem matchesWithTolerance_empty_query: "matchesWithTolerance [] text"
  by (simp add: matchesWithTolerance_def)

text \<open>C9. \<open>getEditDistance\<close> is symmetric.\<close>

theorem getEditDistance_symmetric: "getEditDistance a b = getEditDistance b a"
  by (simp add: getEditDistance_lev lev_sym [of "normalizeText a"])

text \<open>
  C10. A query that is not empty and whose normalization is empty, such as one of
  punctuation only, matches every text.
\<close>

theorem matchesWithTolerance_punctuation_query:
  assumes "query \<noteq> []" and "normalizeText query = []"
  shows "matchesWithTolerance query text"
  using assms by (simp add: matchesWithTolerance_def Let_def includes_str_sublist)

text \<open>The query \<open>?!\<close> has an empty normalization.\<close>

theorem matchesWithTolerance_punctuation_query_witness:
  "''?!'' \<noteq> [] \<and> normalizeText ''?!'' = [] \<and> matchesWithTolerance ''?!'' ''Computer Science''"
proof -
  have a: "''?!'' \<noteq> []" by simp
  have b: "normalizeText ''?!'' = []" by code_simp
  show ?thesis
    using matchesWithTolerance_punctuation_query [OF a b, of "''Computer Science''"] a b by simp
qed

end
